theory Spec2Isabelle
  imports Main "HOL-Library.Signed_Division"
begin

section \<open>A ring buffer of strings\<close>

text \<open>
  The package \<open>stRingBuffer\<close> keeps a log of recent lines in a slice of fixed length,
  with two cursors and a count. The Go methods mutate the receiver \<open>s\<close>; here every method
  takes the buffer and returns the updated one. A Go run-time panic is a value of type
  \<open>panic\<close>, returned as \<open>Inl\<close>.

  Go's \<open>int\<close> is modelled by \<open>int\<close>: every sum the code forms is \<open>x + len(s.lines)\<close> with
  \<open>x\<close> at most one step outside the slice, and a slice of strings is far shorter than
  \<open>2 ^ 62\<close>, so no sum reaches the 64-bit limit. Go's \<open>%\<close> truncates towards zero; it is
  \<open>smod\<close>, and it panics when the divisor is zero.
\<close>

subsection \<open>Panics and primitive operations\<close>

datatype panic = DivideByZero | IndexOutOfRange | SliceBoundsOutOfRange | MakeLenOutOfRange

fun bind_res :: "panic + 'a \<Rightarrow> ('a \<Rightarrow> panic + 'b) \<Rightarrow> panic + 'b" where
  "bind_res (Inl e) k = Inl e"
| "bind_res (Inr x) k = k x"

definition go_rem :: "int \<Rightarrow> int \<Rightarrow> panic + int" where
  "go_rem a b = (if b = 0 then Inl DivideByZero else Inr (a smod b))"

definition index_get :: "string list \<Rightarrow> int \<Rightarrow> panic + string" where
  "index_get xs i =
     (if 0 \<le> i \<and> i < int (length xs) then Inr (xs ! nat i) else Inl IndexOutOfRange)"

definition index_set :: "string list \<Rightarrow> int \<Rightarrow> string \<Rightarrow> panic + string list" where
  "index_set xs i v =
     (if 0 \<le> i \<and> i < int (length xs) then Inr (xs[nat i := v]) else Inl IndexOutOfRange)"

definition make_strings :: "int \<Rightarrow> panic + string list" where
  "make_strings n = (if n < 0 then Inl MakeLenOutOfRange else Inr (replicate (nat n) ''''))"

subsection \<open>The buffer and its queries\<close>

record StRingBuffer =
  s_start :: int
  s_end :: int
  s_lines :: "string list"
  s_length :: int

definition NewStRingBuffer :: "int \<Rightarrow> panic + StRingBuffer" where
  "NewStRingBuffer sz =
     bind_res (make_strings sz)
       (\<lambda>ls. Inr \<lparr>s_start = 0, s_end = 0, s_lines = ls, s_length = 0\<rparr>)"

definition Full :: "StRingBuffer \<Rightarrow> bool" where
  "Full s = (s_length s = int (length (s_lines s)))"

definition Empty :: "StRingBuffer \<Rightarrow> bool" where
  "Empty s = (s_length s = 0)"

definition Length :: "StRingBuffer \<Rightarrow> int" where
  "Length s = s_length s"

definition Capacity :: "StRingBuffer \<Rightarrow> int" where
  "Capacity s = int (length (s_lines s))"

definition mod_srb :: "StRingBuffer \<Rightarrow> int \<Rightarrow> panic + int" where
  "mod_srb s x = (let l = int (length (s_lines s)) in go_rem (x + l) l)"

subsection \<open>The methods of \<open>src/stRingBuffer/stRingBuffer.go\<close>\<close>

text \<open>
  In this file \<open>Push\<close> advances \<open>end\<close> and then writes, so \<open>end\<close> is the slot of the newest
  line, and \<open>Unshift\<close> writes and then retracts \<open>start\<close>, so \<open>start\<close> is the slot before the
  oldest line. \<open>Push_step\<close> and \<open>Unshift_step\<close> are the bodies of the two \<open>range\<close> loops.
\<close>

definition Push_step :: "string \<Rightarrow> StRingBuffer \<Rightarrow> panic + StRingBuffer" where
  "Push_step line s =
     bind_res
       (if Full s then bind_res (mod_srb s (s_start s + 1)) (\<lambda>i. Inr (s\<lparr>s_start := i\<rparr>))
        else Inr (s\<lparr>s_length := s_length s + 1\<rparr>))
       (\<lambda>s1. bind_res (mod_srb s1 (s_end s1 + 1))
         (\<lambda>e. bind_res (index_set (s_lines s1) e line)
           (\<lambda>ls. Inr (s1\<lparr>s_end := e, s_lines := ls\<rparr>))))"

fun Push :: "string list \<Rightarrow> StRingBuffer \<Rightarrow> panic + StRingBuffer" where
  "Push [] s = Inr s"
| "Push (line # lines) s = bind_res (Push_step line s) (Push lines)"

definition Pop :: "StRingBuffer \<Rightarrow> panic + (string \<times> StRingBuffer)" where
  "Pop s =
     (if Empty s then Inr ('''', s)
      else let s1 = s\<lparr>s_length := s_length s - 1\<rparr> in
        bind_res (index_get (s_lines s1) (s_end s1))
          (\<lambda>ret. bind_res (index_set (s_lines s1) (s_end s1) '''')
            (\<lambda>ls. let s2 = s1\<lparr>s_lines := ls\<rparr> in
              bind_res (mod_srb s2 (s_end s2 - 1))
                (\<lambda>e. Inr (ret, s2\<lparr>s_end := e\<rparr>)))))"

definition Unshift_step :: "string \<Rightarrow> StRingBuffer \<Rightarrow> panic + StRingBuffer" where
  "Unshift_step line s =
     bind_res
       (if Full s then bind_res (mod_srb s (s_end s - 1)) (\<lambda>i. Inr (s\<lparr>s_end := i\<rparr>))
        else Inr (s\<lparr>s_length := s_length s + 1\<rparr>))
       (\<lambda>s1. bind_res (index_set (s_lines s1) (s_start s1) line)
         (\<lambda>ls. let s2 = s1\<lparr>s_lines := ls\<rparr> in
           bind_res (mod_srb s2 (s_start s2 - 1))
             (\<lambda>i. Inr (s2\<lparr>s_start := i\<rparr>))))"

fun Unshift :: "string list \<Rightarrow> StRingBuffer \<Rightarrow> panic + StRingBuffer" where
  "Unshift [] s = Inr s"
| "Unshift (line # lines) s = bind_res (Unshift_step line s) (Unshift lines)"

definition Shift :: "StRingBuffer \<Rightarrow> panic + (string \<times> StRingBuffer)" where
  "Shift s =
     (if Empty s then Inr ('''', s)
      else let s1 = s\<lparr>s_length := s_length s - 1\<rparr> in
        bind_res (mod_srb s1 (s_start s1 + 1))
          (\<lambda>i. let s2 = s1\<lparr>s_start := i\<rparr> in
            bind_res (index_get (s_lines s2) (s_start s2))
              (\<lambda>ret. bind_res (index_set (s_lines s2) (s_start s2) '''')
                (\<lambda>ls. Inr (ret, s2\<lparr>s_lines := ls\<rparr>)))))"

text \<open>
  The function handed to \<open>Map\<close> is a Go closure and may keep state of its own (the test
  counts its calls). It is modelled as a function from the argument and the closure's
  state to the result and the new state; a pure function leaves the state alone. The
  counter \<open>i\<close> of the loop runs from \<open>0\<close> to \<open>l\<close>, which is read once before the loop.
\<close>

fun Map_loop ::
  "nat \<Rightarrow> (string \<Rightarrow> 'c \<Rightarrow> string \<times> 'c) \<Rightarrow> StRingBuffer \<Rightarrow> 'c \<Rightarrow> panic + (StRingBuffer \<times> 'c)"
where
  "Map_loop 0 f s c = Inr (s, c)"
| "Map_loop (Suc n) f s c =
     bind_res (Shift s)
       (\<lambda>(x, s1). case f x c of (y, c1) \<Rightarrow>
          bind_res (Push [y] s1) (\<lambda>s2. Map_loop n f s2 c1))"

definition Map ::
  "(string \<Rightarrow> 'c \<Rightarrow> string \<times> 'c) \<Rightarrow> StRingBuffer \<Rightarrow> 'c \<Rightarrow> panic + (StRingBuffer \<times> 'c)"
where
  "Map f s c = Map_loop (nat (Length s)) f s c"

fun MapR_loop ::
  "nat \<Rightarrow> (string \<Rightarrow> 'c \<Rightarrow> string \<times> 'c) \<Rightarrow> StRingBuffer \<Rightarrow> 'c \<Rightarrow> panic + (StRingBuffer \<times> 'c)"
where
  "MapR_loop 0 f s c = Inr (s, c)"
| "MapR_loop (Suc n) f s c =
     bind_res (Pop s)
       (\<lambda>(x, s1). case f x c of (y, c1) \<Rightarrow>
          bind_res (Unshift [y] s1) (\<lambda>s2. MapR_loop n f s2 c1))"

definition MapR ::
  "(string \<Rightarrow> 'c \<Rightarrow> string \<times> 'c) \<Rightarrow> StRingBuffer \<Rightarrow> 'c \<Rightarrow> panic + (StRingBuffer \<times> 'c)"
where
  "MapR f s c = MapR_loop (nat (Length s)) f s c"

text \<open>
  \<open>Each\<close> and \<open>EachR\<close> take a function that returns nothing and acts on its own state
  only; \<open>mkId\<close> makes of it a function that hands its argument back.
\<close>

definition mkId :: "(string \<Rightarrow> 'c \<Rightarrow> 'c) \<Rightarrow> string \<Rightarrow> 'c \<Rightarrow> string \<times> 'c" where
  "mkId f s c = (s, f s c)"

definition Each ::
  "(string \<Rightarrow> 'c \<Rightarrow> 'c) \<Rightarrow> StRingBuffer \<Rightarrow> 'c \<Rightarrow> panic + (StRingBuffer \<times> 'c)"
where
  "Each f s c = Map (mkId f) s c"

definition EachR ::
  "(string \<Rightarrow> 'c \<Rightarrow> 'c) \<Rightarrow> StRingBuffer \<Rightarrow> 'c \<Rightarrow> panic + (StRingBuffer \<times> 'c)"
where
  "EachR f s c = MapR (mkId f) s c"

text \<open>Calling \<open>Pop\<close> or \<open>Shift\<close> several times, collecting what they return in order.\<close>

fun Pops :: "nat \<Rightarrow> StRingBuffer \<Rightarrow> panic + (string list \<times> StRingBuffer)" where
  "Pops 0 s = Inr ([], s)"
| "Pops (Suc n) s =
     bind_res (Pop s) (\<lambda>(x, s1). bind_res (Pops n s1) (\<lambda>(xs, s2). Inr (x # xs, s2)))"

fun Shifts :: "nat \<Rightarrow> StRingBuffer \<Rightarrow> panic + (string list \<times> StRingBuffer)" where
  "Shifts 0 s = Inr ([], s)"
| "Shifts (Suc n) s =
     bind_res (Shift s) (\<lambda>(x, s1). bind_res (Shifts n s1) (\<lambda>(xs, s2). Inr (x # xs, s2)))"

definition Push_Pops :: "string list \<Rightarrow> StRingBuffer \<Rightarrow> panic + (string list \<times> StRingBuffer)" where
  "Push_Pops vs s = bind_res (Push vs s) (Pops (length vs))"

definition Unshift_Shifts ::
  "string list \<Rightarrow> StRingBuffer \<Rightarrow> panic + (string list \<times> StRingBuffer)" where
  "Unshift_Shifts vs s = bind_res (Unshift vs s) (Shifts (length vs))"

definition returned :: "panic + ('a \<times> 'b) \<Rightarrow> panic + 'a" where
  "returned r = (case r of Inl e \<Rightarrow> Inl e | Inr (x, s) \<Rightarrow> Inr x)"

subsection \<open>The methods of \<open>src/unnamed/part_002\<close>\<close>

text \<open>
  This file has the same struct and queries, and adds \<open>Slice\<close> and \<open>Unslice\<close>. Its
  \<open>Push\<close> writes and then advances \<open>end\<close>, so \<open>end\<close> is the slot after the newest line,
  and its \<open>Unshift\<close> retracts \<open>start\<close> and then writes, so \<open>start\<close> is the slot of the
  oldest line. Its methods carry the suffix \<open>2\<close> here.
\<close>

definition Push2_step :: "string \<Rightarrow> StRingBuffer \<Rightarrow> panic + StRingBuffer" where
  "Push2_step line s =
     bind_res
       (if Full s then bind_res (mod_srb s (s_start s + 1)) (\<lambda>i. Inr (s\<lparr>s_start := i\<rparr>))
        else Inr (s\<lparr>s_length := s_length s + 1\<rparr>))
       (\<lambda>s1. bind_res (index_set (s_lines s1) (s_end s1) line)
         (\<lambda>ls. let s2 = s1\<lparr>s_lines := ls\<rparr> in
           bind_res (mod_srb s2 (s_end s2 + 1))
             (\<lambda>e. Inr (s2\<lparr>s_end := e\<rparr>))))"

fun Push2 :: "string list \<Rightarrow> StRingBuffer \<Rightarrow> panic + StRingBuffer" where
  "Push2 [] s = Inr s"
| "Push2 (line # lines) s = bind_res (Push2_step line s) (Push2 lines)"

definition Pop2 :: "StRingBuffer \<Rightarrow> panic + (string \<times> StRingBuffer)" where
  "Pop2 s =
     (if Empty s then Inr ('''', s)
      else let s1 = s\<lparr>s_length := s_length s - 1\<rparr> in
        bind_res (mod_srb s1 (s_end s1 - 1))
          (\<lambda>e. let s2 = s1\<lparr>s_end := e\<rparr> in
            bind_res (index_get (s_lines s2) (s_end s2))
              (\<lambda>ret. bind_res (index_set (s_lines s2) (s_end s2) '''')
                (\<lambda>ls. Inr (ret, s2\<lparr>s_lines := ls\<rparr>)))))"

definition Unshift2_step :: "string \<Rightarrow> StRingBuffer \<Rightarrow> panic + StRingBuffer" where
  "Unshift2_step line s =
     bind_res
       (if Full s then bind_res (mod_srb s (s_end s - 1)) (\<lambda>i. Inr (s\<lparr>s_end := i\<rparr>))
        else Inr (s\<lparr>s_length := s_length s + 1\<rparr>))
       (\<lambda>s1. bind_res (mod_srb s1 (s_start s1 - 1))
         (\<lambda>i. bind_res (index_set (s_lines s1) i line)
           (\<lambda>ls. Inr (s1\<lparr>s_start := i, s_lines := ls\<rparr>))))"

fun Unshift2 :: "string list \<Rightarrow> StRingBuffer \<Rightarrow> panic + StRingBuffer" where
  "Unshift2 [] s = Inr s"
| "Unshift2 (line # lines) s = bind_res (Unshift2_step line s) (Unshift2 lines)"

definition Shift2 :: "StRingBuffer \<Rightarrow> panic + (string \<times> StRingBuffer)" where
  "Shift2 s =
     (if Empty s then Inr ('''', s)
      else let s1 = s\<lparr>s_length := s_length s - 1\<rparr> in
        bind_res (index_get (s_lines s1) (s_start s1))
          (\<lambda>ret. bind_res (index_set (s_lines s1) (s_start s1) '''')
            (\<lambda>ls. let s2 = s1\<lparr>s_lines := ls\<rparr> in
              bind_res (mod_srb s2 (s_start s2 + 1))
                (\<lambda>i. Inr (ret, s2\<lparr>s_start := i\<rparr>)))))"

fun Map2_loop ::
  "nat \<Rightarrow> (string \<Rightarrow> 'c \<Rightarrow> string \<times> 'c) \<Rightarrow> StRingBuffer \<Rightarrow> 'c \<Rightarrow> panic + (StRingBuffer \<times> 'c)"
where
  "Map2_loop 0 f s c = Inr (s, c)"
| "Map2_loop (Suc n) f s c =
     bind_res (Shift2 s)
       (\<lambda>(x, s1). case f x c of (y, c1) \<Rightarrow>
          bind_res (Push2 [y] s1) (\<lambda>s2. Map2_loop n f s2 c1))"

definition Map2 ::
  "(string \<Rightarrow> 'c \<Rightarrow> string \<times> 'c) \<Rightarrow> StRingBuffer \<Rightarrow> 'c \<Rightarrow> panic + (StRingBuffer \<times> 'c)"
where
  "Map2 f s c = Map2_loop (nat (Length s)) f s c"

fun MapR2_loop ::
  "nat \<Rightarrow> (string \<Rightarrow> 'c \<Rightarrow> string \<times> 'c) \<Rightarrow> StRingBuffer \<Rightarrow> 'c \<Rightarrow> panic + (StRingBuffer \<times> 'c)"
where
  "MapR2_loop 0 f s c = Inr (s, c)"
| "MapR2_loop (Suc n) f s c =
     bind_res (Pop2 s)
       (\<lambda>(x, s1). case f x c of (y, c1) \<Rightarrow>
          bind_res (Unshift2 [y] s1) (\<lambda>s2. MapR2_loop n f s2 c1))"

definition MapR2 ::
  "(string \<Rightarrow> 'c \<Rightarrow> string \<times> 'c) \<Rightarrow> StRingBuffer \<Rightarrow> 'c \<Rightarrow> panic + (StRingBuffer \<times> 'c)"
where
  "MapR2 f s c = MapR2_loop (nat (Length s)) f s c"

text \<open>
  A slice expression \<open>xs[lo:hi]\<close> panics unless \<open>0 \<le> lo \<le> hi \<le> cap(xs)\<close>; the model takes
  the capacity of a slice to be its length, which is so for the slices that \<open>make\<close>
  returns. The built-in \<open>copy(dst, src)\<close> overwrites the first
  \<open>min(len(dst), len(src))\<close> elements of \<open>dst\<close>. \<open>Slice\<close> assigns to no field of the buffer;
  it returns the buffer as it found it, beside the new slice.
\<close>

definition slice_of :: "string list \<Rightarrow> int \<Rightarrow> int \<Rightarrow> panic + string list" where
  "slice_of xs lo hi =
     (if 0 \<le> lo \<and> lo \<le> hi \<and> hi \<le> int (length xs)
      then Inr (take (nat (hi - lo)) (drop (nat lo) xs))
      else Inl SliceBoundsOutOfRange)"

definition copy_go :: "string list \<Rightarrow> string list \<Rightarrow> string list" where
  "copy_go dst src = (let n = min (length dst) (length src) in take n src @ drop n dst)"

definition Slice :: "StRingBuffer \<Rightarrow> panic + (string list \<times> StRingBuffer)" where
  "Slice s =
     bind_res (make_strings (Length s))
       (\<lambda>slice.
         if \<not> Empty s then
           if s_start s < s_end s then
             let e = s_end s + 1 in
             bind_res (slice_of (s_lines s) (s_start s) e)
               (\<lambda>src. Inr (copy_go slice src, s))
           else
             bind_res (slice_of (s_lines s) (s_start s) (int (length (s_lines s))))
               (\<lambda>part1. bind_res (slice_of (s_lines s) 0 (s_end s))
                 (\<lambda>part2. let slice1 = copy_go slice part1 in
                   bind_res (slice_of slice1 (int (length part1)) (int (length slice1)))
                     (\<lambda>rest. Inr (take (length part1) slice1 @ copy_go rest part2, s))))
         else Inr (slice, s))"

definition Unslice :: "string list \<Rightarrow> panic + StRingBuffer" where
  "Unslice lines =
     (let srb = \<lparr>s_start = 0, s_end = 0, s_lines = lines, s_length = int (length lines)\<rparr>
      in bind_res (mod_srb srb (s_length srb)) (\<lambda>e. Inr (srb\<lparr>s_end := e\<rparr>)))"

definition Unslice_Slice :: "StRingBuffer \<Rightarrow> panic + StRingBuffer" where
  "Unslice_Slice b = bind_res (Slice b) (\<lambda>(xs, b'). Unslice xs)"

fun Shifts2 :: "nat \<Rightarrow> StRingBuffer \<Rightarrow> panic + (string list \<times> StRingBuffer)" where
  "Shifts2 0 s = Inr ([], s)"
| "Shifts2 (Suc n) s =
     bind_res (Shift2 s) (\<lambda>(x, s1). bind_res (Shifts2 n s1) (\<lambda>(xs, s2). Inr (x # xs, s2)))"

subsection \<open>Well-formed buffers, their contents, and the buffers a caller can reach\<close>

text \<open>
  In both files the cursors stay inside the slice and \<open>end\<close> is \<open>length\<close> slots after
  \<open>start\<close>, around the ring. \<open>ring_list ls st n\<close> reads \<open>n\<close> slots of \<open>ls\<close> from slot \<open>st\<close>
  on, around the ring. The live lines, oldest first, start one slot after \<open>start\<close> in
  \<open>stRingBuffer.go\<close> and at \<open>start\<close> in \<open>part_002\<close>.
\<close>

definition wf :: "StRingBuffer \<Rightarrow> bool" where
  "wf s =
     (0 \<le> s_length s \<and> s_length s \<le> Capacity s \<and>
      (if Capacity s = 0 then s_start s = 0 \<and> s_end s = 0
       else 0 \<le> s_start s \<and> s_start s < Capacity s \<and>
            s_end s = (s_start s + s_length s) mod Capacity s))"

definition ring_list :: "'a list \<Rightarrow> int \<Rightarrow> nat \<Rightarrow> 'a list" where
  "ring_list ls st n = map (\<lambda>k. ls ! nat ((st + int k) mod int (length ls))) [0..<n]"

definition contents :: "StRingBuffer \<Rightarrow> string list" where
  "contents s = ring_list (s_lines s) (s_start s + 1) (nat (s_length s))"

definition contents2 :: "StRingBuffer \<Rightarrow> string list" where
  "contents2 s = ring_list (s_lines s) (s_start s) (nat (s_length s))"

text \<open>
  The fields are private, so a caller holds only buffers made by the constructors and
  changed by the methods. \<open>Map\<close>, \<open>MapR\<close>, \<open>Each\<close> and \<open>EachR\<close> change the buffer through
  \<open>Shift\<close>, \<open>Push\<close>, \<open>Pop\<close> and \<open>Unshift\<close> only.
\<close>

inductive reachable :: "StRingBuffer \<Rightarrow> bool" where
  new: "NewStRingBuffer sz = Inr s \<Longrightarrow> reachable s"
| push: "reachable s \<Longrightarrow> Push vs s = Inr s' \<Longrightarrow> reachable s'"
| pop: "reachable s \<Longrightarrow> Pop s = Inr (x, s') \<Longrightarrow> reachable s'"
| unshift: "reachable s \<Longrightarrow> Unshift vs s = Inr s' \<Longrightarrow> reachable s'"
| shift: "reachable s \<Longrightarrow> Shift s = Inr (x, s') \<Longrightarrow> reachable s'"

inductive reachable2 :: "StRingBuffer \<Rightarrow> bool" where
  new2: "NewStRingBuffer sz = Inr s \<Longrightarrow> reachable2 s"
| unslice2: "Unslice vs = Inr s \<Longrightarrow> reachable2 s"
| push2: "reachable2 s \<Longrightarrow> Push2 vs s = Inr s' \<Longrightarrow> reachable2 s'"
| pop2: "reachable2 s \<Longrightarrow> Pop2 s = Inr (x, s') \<Longrightarrow> reachable2 s'"
| unshift2: "reachable2 s \<Longrightarrow> Unshift2 vs s = Inr s' \<Longrightarrow> reachable2 s'"
| shift2: "reachable2 s \<Longrightarrow> Shift2 s = Inr (x, s') \<Longrightarrow> reachable2 s'"

text \<open>
  What the specification says of \<open>Map\<close>: the function is applied to the lines in the
  order of the list, each line is replaced by the result, and the closure's state is
  handed from one call to the next.
\<close>

fun thread :: "(string \<Rightarrow> 'c \<Rightarrow> string \<times> 'c) \<Rightarrow> string list \<Rightarrow> 'c \<Rightarrow> string list \<times> 'c" where
  "thread f [] c = ([], c)"
| "thread f (x # xs) c =
     (case f x c of (y, c1) \<Rightarrow> case thread f xs c1 of (ys, c2) \<Rightarrow> (y # ys, c2))"

definition pure_fn :: "(string \<Rightarrow> string) \<Rightarrow> string \<Rightarrow> 'c \<Rightarrow> string \<times> 'c" where
  "pure_fn g x c = (g x, c)"

definition observing :: "(string \<Rightarrow> string) \<Rightarrow> string \<Rightarrow> string list \<Rightarrow> string \<times> string list" where
  "observing g x seen = (g x, seen @ [x])"

subsection \<open>\<open>part_002\<close> over an explicit store of arrays\<close>

text \<open>
  A Go slice is a header: the array it views, the offset of its first element, its
  length and its capacity. Two slices may view the same array, as the slice handed to
  \<open>Unslice\<close> and the field \<open>lines\<close> do. To tell a new array from a shared one, the store
  is the list of the arrays allocated so far, an array's address is its index in that
  list, and \<open>make\<close> appends a new array. The methods of \<open>part_002\<close> are written below
  a second time over this store, with the suffix \<open>_h\<close>; they read and write the elements
  of \<open>lines\<close> through the header.

  \<open>view\<close> reads the elements a header views; \<open>store_put\<close> writes elements at the start of
  its window. A slice expression \<open>xs[lo:hi]\<close> keeps the array and panics unless
  \<open>0 \<le> lo \<le> hi \<le> cap(xs)\<close>. \<open>copy(dst, src)\<close> writes the first \<open>min(len(dst), len(src))\<close>
  elements of \<open>src\<close> over the first elements of \<open>dst\<close>.
\<close>

type_synonym store = "string list list"

record slice_hd =
  sl_arr :: nat
  sl_off :: nat
  sl_len :: nat
  sl_cap :: nat

record StRingBuffer_h =
  h_start :: int
  h_end :: int
  h_lines :: slice_hd
  h_length :: int

definition view :: "store \<Rightarrow> slice_hd \<Rightarrow> string list" where
  "view h sl = take (sl_len sl) (drop (sl_off sl) (h ! sl_arr sl))"

definition store_put :: "store \<Rightarrow> slice_hd \<Rightarrow> string list \<Rightarrow> store" where
  "store_put h sl ys =
     h[sl_arr sl := take (sl_off sl) (h ! sl_arr sl) @ ys @
                     drop (sl_off sl + length ys) (h ! sl_arr sl)]"

definition h_index_get :: "store \<Rightarrow> slice_hd \<Rightarrow> int \<Rightarrow> panic + string" where
  "h_index_get h sl i =
     (if 0 \<le> i \<and> i < int (sl_len sl) then Inr (h ! sl_arr sl ! (sl_off sl + nat i))
      else Inl IndexOutOfRange)"

definition h_index_set :: "store \<Rightarrow> slice_hd \<Rightarrow> int \<Rightarrow> string \<Rightarrow> panic + store" where
  "h_index_set h sl i v =
     (if 0 \<le> i \<and> i < int (sl_len sl)
      then Inr (h[sl_arr sl := (h ! sl_arr sl)[sl_off sl + nat i := v]])
      else Inl IndexOutOfRange)"

definition h_make :: "store \<Rightarrow> int \<Rightarrow> panic + (slice_hd \<times> store)" where
  "h_make h n =
     (if n < 0 then Inl MakeLenOutOfRange
      else Inr (\<lparr>sl_arr = length h, sl_off = 0, sl_len = nat n, sl_cap = nat n\<rparr>,
                h @ [replicate (nat n) '''']))"

definition h_slice :: "slice_hd \<Rightarrow> int \<Rightarrow> int \<Rightarrow> panic + slice_hd" where
  "h_slice sl lo hi =
     (if 0 \<le> lo \<and> lo \<le> hi \<and> hi \<le> int (sl_cap sl)
      then Inr \<lparr>sl_arr = sl_arr sl, sl_off = sl_off sl + nat lo, sl_len = nat (hi - lo),
               sl_cap = sl_cap sl - nat lo\<rparr>
      else Inl SliceBoundsOutOfRange)"

definition h_copy :: "store \<Rightarrow> slice_hd \<Rightarrow> slice_hd \<Rightarrow> store" where
  "h_copy h dst src = store_put h dst (take (min (sl_len dst) (sl_len src)) (view h src))"

definition Full_h :: "StRingBuffer_h \<Rightarrow> bool" where
  "Full_h s = (h_length s = int (sl_len (h_lines s)))"

definition Empty_h :: "StRingBuffer_h \<Rightarrow> bool" where
  "Empty_h s = (h_length s = 0)"

definition Length_h :: "StRingBuffer_h \<Rightarrow> int" where
  "Length_h s = h_length s"

definition mod_h :: "StRingBuffer_h \<Rightarrow> int \<Rightarrow> panic + int" where
  "mod_h s x = (let l = int (sl_len (h_lines s)) in go_rem (x + l) l)"

definition NewStRingBuffer_h :: "store \<Rightarrow> int \<Rightarrow> panic + (store \<times> StRingBuffer_h)" where
  "NewStRingBuffer_h h sz =
     bind_res (h_make h sz)
       (\<lambda>(ls, h'). Inr (h', \<lparr>h_start = 0, h_end = 0, h_lines = ls, h_length = 0\<rparr>))"

definition Unslice_h :: "slice_hd \<Rightarrow> panic + StRingBuffer_h" where
  "Unslice_h lines =
     (let srb = \<lparr>h_start = 0, h_end = 0, h_lines = lines, h_length = int (sl_len lines)\<rparr>
      in bind_res (mod_h srb (h_length srb)) (\<lambda>e. Inr (srb\<lparr>h_end := e\<rparr>)))"

definition Push2_h_step ::
  "string \<Rightarrow> store \<Rightarrow> StRingBuffer_h \<Rightarrow> panic + (store \<times> StRingBuffer_h)" where
  "Push2_h_step line h s =
     bind_res
       (if Full_h s then bind_res (mod_h s (h_start s + 1)) (\<lambda>i. Inr (s\<lparr>h_start := i\<rparr>))
        else Inr (s\<lparr>h_length := h_length s + 1\<rparr>))
       (\<lambda>s1. bind_res (h_index_set h (h_lines s1) (h_end s1) line)
         (\<lambda>h1. bind_res (mod_h s1 (h_end s1 + 1))
           (\<lambda>e. Inr (h1, s1\<lparr>h_end := e\<rparr>))))"

fun Push2_h ::
  "string list \<Rightarrow> store \<Rightarrow> StRingBuffer_h \<Rightarrow> panic + (store \<times> StRingBuffer_h)" where
  "Push2_h [] h s = Inr (h, s)"
| "Push2_h (line # lines) h s =
     bind_res (Push2_h_step line h s) (\<lambda>(h1, s1). Push2_h lines h1 s1)"

definition Pop2_h ::
  "store \<Rightarrow> StRingBuffer_h \<Rightarrow> panic + (string \<times> store \<times> StRingBuffer_h)" where
  "Pop2_h h s =
     (if Empty_h s then Inr ('''', h, s)
      else let s1 = s\<lparr>h_length := h_length s - 1\<rparr> in
        bind_res (mod_h s1 (h_end s1 - 1))
          (\<lambda>e. let s2 = s1\<lparr>h_end := e\<rparr> in
            bind_res (h_index_get h (h_lines s2) (h_end s2))
              (\<lambda>ret. bind_res (h_index_set h (h_lines s2) (h_end s2) '''')
                (\<lambda>h1. Inr (ret, h1, s2)))))"

definition Unshift2_h_step ::
  "string \<Rightarrow> store \<Rightarrow> StRingBuffer_h \<Rightarrow> panic + (store \<times> StRingBuffer_h)" where
  "Unshift2_h_step line h s =
     bind_res
       (if Full_h s then bind_res (mod_h s (h_end s - 1)) (\<lambda>i. Inr (s\<lparr>h_end := i\<rparr>))
        else Inr (s\<lparr>h_length := h_length s + 1\<rparr>))
       (\<lambda>s1. bind_res (mod_h s1 (h_start s1 - 1))
         (\<lambda>i. let s2 = s1\<lparr>h_start := i\<rparr> in
           bind_res (h_index_set h (h_lines s2) (h_start s2) line)
             (\<lambda>h1. Inr (h1, s2))))"

fun Unshift2_h ::
  "string list \<Rightarrow> store \<Rightarrow> StRingBuffer_h \<Rightarrow> panic + (store \<times> StRingBuffer_h)" where
  "Unshift2_h [] h s = Inr (h, s)"
| "Unshift2_h (line # lines) h s =
     bind_res (Unshift2_h_step line h s) (\<lambda>(h1, s1). Unshift2_h lines h1 s1)"

definition Shift2_h ::
  "store \<Rightarrow> StRingBuffer_h \<Rightarrow> panic + (string \<times> store \<times> StRingBuffer_h)" where
  "Shift2_h h s =
     (if Empty_h s then Inr ('''', h, s)
      else let s1 = s\<lparr>h_length := h_length s - 1\<rparr> in
        bind_res (h_index_get h (h_lines s1) (h_start s1))
          (\<lambda>ret. bind_res (h_index_set h (h_lines s1) (h_start s1) '''')
            (\<lambda>h1. bind_res (mod_h s1 (h_start s1 + 1))
              (\<lambda>i. Inr (ret, h1, s1\<lparr>h_start := i\<rparr>)))))"

text \<open>
  \<open>Slice_h\<close> returns the header of the slice it made, the store after the call and the
  buffer. \<open>s.lines[s.start:]\<close> ends at \<open>len(s.lines)\<close>, and \<open>slice[len(part1):]\<close> at
  \<open>len(slice)\<close>.
\<close>

definition Slice_h ::
  "store \<Rightarrow> StRingBuffer_h \<Rightarrow> panic + (slice_hd \<times> store \<times> StRingBuffer_h)" where
  "Slice_h h s =
     bind_res (h_make h (Length_h s))
       (\<lambda>(slice, h1).
         if \<not> Empty_h s then
           if h_start s < h_end s then
             let e = h_end s + 1 in
             bind_res (h_slice (h_lines s) (h_start s) e)
               (\<lambda>src. Inr (slice, h_copy h1 slice src, s))
           else
             bind_res (h_slice (h_lines s) (h_start s) (int (sl_len (h_lines s))))
               (\<lambda>part1. bind_res (h_slice (h_lines s) 0 (h_end s))
                 (\<lambda>part2. let h2 = h_copy h1 slice part1 in
                   bind_res (h_slice slice (int (sl_len part1)) (int (sl_len slice)))
                     (\<lambda>rest. Inr (slice, h_copy h2 rest part2, s))))
         else Inr (slice, h1, s))"

fun Shifts2_h ::
  "nat \<Rightarrow> store \<Rightarrow> StRingBuffer_h \<Rightarrow> panic + (string list \<times> store \<times> StRingBuffer_h)" where
  "Shifts2_h 0 h s = Inr ([], h, s)"
| "Shifts2_h (Suc n) h s =
     bind_res (Shift2_h h s)
       (\<lambda>(x, h1, s1). bind_res (Shifts2_h n h1 s1) (\<lambda>(xs, h2, s2). Inr (x # xs, h2, s2)))"

text \<open>
  A header is valid in a store when its array is allocated and its window lies inside
  the array. \<open>buffer_of\<close> reads a buffer of the store as a buffer with its lines as a
  list, and \<open>live_h\<close> are its live lines, oldest first. \<open>write_back\<close> puts the fields and
  the lines of such a buffer back.
\<close>

definition valid_slice :: "store \<Rightarrow> slice_hd \<Rightarrow> bool" where
  "valid_slice h sl =
     (sl_arr sl < length h \<and> sl_len sl \<le> sl_cap sl \<and>
      sl_off sl + sl_cap sl \<le> length (h ! sl_arr sl))"

definition buffer_of :: "store \<Rightarrow> StRingBuffer_h \<Rightarrow> StRingBuffer" where
  "buffer_of h s =
     \<lparr>s_start = h_start s, s_end = h_end s, s_lines = view h (h_lines s),
      s_length = h_length s\<rparr>"

definition live_h :: "store \<Rightarrow> StRingBuffer_h \<Rightarrow> string list" where
  "live_h h s = contents2 (buffer_of h s)"

definition write_back :: "store \<Rightarrow> StRingBuffer_h \<Rightarrow> StRingBuffer \<Rightarrow> store \<times> StRingBuffer_h" where
  "write_back h s t =
     (store_put h (h_lines s) (s_lines t),
      s\<lparr>h_start := s_start t, h_end := s_end t, h_length := s_length t\<rparr>)"

definition same_but :: "store \<Rightarrow> nat \<Rightarrow> store \<Rightarrow> bool" where
  "same_but h a h' = (length h' = length h \<and> (\<forall>b. b \<noteq> a \<longrightarrow> h' ! b = h ! b))"

definition wf_h :: "store \<Rightarrow> StRingBuffer_h \<Rightarrow> bool" where
  "wf_h h s = (valid_slice h (h_lines s) \<and> wf (buffer_of h s))"

text \<open>
  \<open>later_h p q\<close>: the store and buffer \<open>q\<close> come from \<open>p\<close> by calls of the methods on the
  buffer. A caller reaches a buffer by a constructor and such calls; between them other
  code may allocate arrays and write to the elements of arrays, among them the array
  that \<open>Unslice\<close> shares with its caller.
\<close>

inductive later_h :: "store \<times> StRingBuffer_h \<Rightarrow> store \<times> StRingBuffer_h \<Rightarrow> bool" where
  now_h: "later_h p p"
| push_h: "later_h p (h, s) \<Longrightarrow> Push2_h vs h s = Inr (h', s') \<Longrightarrow> later_h p (h', s')"
| pop_h: "later_h p (h, s) \<Longrightarrow> Pop2_h h s = Inr (x, h', s') \<Longrightarrow> later_h p (h', s')"
| unshift_h: "later_h p (h, s) \<Longrightarrow> Unshift2_h vs h s = Inr (h', s') \<Longrightarrow> later_h p (h', s')"
| shift_h: "later_h p (h, s) \<Longrightarrow> Shift2_h h s = Inr (x, h', s') \<Longrightarrow> later_h p (h', s')"
| slice_h: "later_h p (h, s) \<Longrightarrow> Slice_h h s = Inr (r, h', s') \<Longrightarrow> later_h p (h', s')"

inductive reachable_h :: "store \<times> StRingBuffer_h \<Rightarrow> bool" where
  new_h: "NewStRingBuffer_h h0 sz = Inr (h, s) \<Longrightarrow> reachable_h (h, s)"
| unslice_h: "valid_slice h ls \<Longrightarrow> Unslice_h ls = Inr s \<Longrightarrow> reachable_h (h, s)"
| calls_h: "reachable_h p \<Longrightarrow> later_h p q \<Longrightarrow> reachable_h q"
| other_h: "reachable_h (h, s) \<Longrightarrow> length h \<le> length h' \<Longrightarrow>
     \<forall>a < length h. length (h' ! a) = length (h ! a) \<Longrightarrow> reachable_h (h', s)"

section \<open>The methods of \<open>src/stRingBuffer/stRingBuffer.go\<close> on well-formed buffers\<close>

lemma go_rem_pos: "0 < l \<Longrightarrow> 0 \<le> x + l \<Longrightarrow> go_rem (x + l) l = Inr (x mod l)"
  by (auto simp add: go_rem_def smod_int_alt_def sgn_if) algebra

lemma ring_inj:
  fixes a j k c :: int
  assumes "0 \<le> j" "j < c" "0 \<le> k" "k < c" "(a + j) mod c = (a + k) mod c"
  shows "j = k"
proof (rule ccontr)
  assume ne: "j \<noteq> k"
  from assms(5) have "c dvd (a + j) - (a + k)" by (simp add: mod_eq_dvd_iff)
  then have d: "c dvd j - k" by simp
  then have d': "c dvd k - j" by (simp add: dvd_diff_commute)
  show False
  proof (cases "k < j")
    case True
    with d have "c \<le> j - k" by (intro zdvd_imp_le) auto
    with assms show False by linarith
  next
    case False
    with ne have "j < k" by simp
    with d' have "c \<le> k - j" by (intro zdvd_imp_le) auto
    with assms show False by linarith
  qed
qed

lemma slot_neq:
  fixes a j k c :: int
  assumes "0 \<le> j" "j < k" "k < c"
  shows "nat ((a + j) mod c) \<noteq> nat ((a + k) mod c)"
proof
  assume h: "nat ((a + j) mod c) = nat ((a + k) mod c)"
  from assms have "0 < c" by linarith
  then have "0 \<le> (a + j) mod c" "0 \<le> (a + k) mod c" by simp_all
  with h have "(a + j) mod c = (a + k) mod c" by linarith
  with assms have "j = k" by (intro ring_inj[of j c k a]) auto
  with assms show False by simp
qed

lemma slot_in_range: "ls \<noteq> [] \<Longrightarrow> nat (x mod int (length ls)) < length ls"
  by (simp add: nat_less_iff)

lemma length_ring_list [simp]: "length (ring_list ls st n) = n"
  by (simp add: ring_list_def)

lemma nth_ring_list:
  "k < n \<Longrightarrow> ring_list ls st n ! k = ls ! nat ((st + int k) mod int (length ls))"
  by (simp add: ring_list_def)

lemma ring_list_cong_start:
  assumes "x mod int (length ls) = y mod int (length ls)"
  shows "ring_list ls x n = ring_list ls y n"
proof -
  have "(x + int k) mod int (length ls) = (y + int k) mod int (length ls)" for k
    using assms by (rule mod_add_cong) simp
  then show ?thesis by (simp add: ring_list_def)
qed

lemma ring_list_snoc:
  "ring_list ls st (Suc n) = ring_list ls st n @ [ls ! nat ((st + int n) mod int (length ls))]"
  by (simp add: ring_list_def)

lemma ring_list_cons:
  "ring_list ls st (Suc n) = ls ! nat (st mod int (length ls)) # ring_list ls (st + 1) n"
proof -
  have "[0..<Suc n] = 0 # map Suc [0..<n]"
    by (simp add: upt_conv_Cons map_Suc_upt del: upt_Suc)
  then show ?thesis
    by (simp add: ring_list_def comp_def ac_simps del: upt_Suc)
qed

lemma ring_list_update_outside:
  assumes "int n \<le> d" "d < int (length ls)"
    and "x mod int (length ls) = (st + d) mod int (length ls)"
  shows "ring_list (ls[nat (x mod int (length ls)) := v]) st n = ring_list ls st n"
proof -
  have "nat ((st + int k) mod int (length ls)) \<noteq> nat (x mod int (length ls))" if "k < n" for k
    using that assms slot_neq[of "int k" d "int (length ls)" st] by simp
  then have "ls[nat (x mod int (length ls)) := v] ! nat ((st + int k) mod int (length ls))
      = ls ! nat ((st + int k) mod int (length ls))" if "k < n" for k
    using that by (metis nth_list_update_neq)
  then show ?thesis by (simp add: ring_list_def)
qed

lemma ring_list_full_inj:
  assumes "length ls = length ls'" "ring_list ls st (length ls) = ring_list ls' st (length ls)"
  shows "ls = ls'"
proof (rule nth_equalityI)
  show "length ls = length ls'" by fact
next
  fix j
  assume j: "j < length ls"
  define c where "c = int (length ls)"
  define k where "k = nat ((int j - st) mod c)"
  from j have c: "0 < c" by (auto simp add: c_def)
  then have k: "k < length ls" by (simp add: k_def c_def nat_less_iff)
  have "(st + int k) mod c = int j mod c"
    using c by (simp add: k_def mod_simps)
  also have "\<dots> = int j" using j by (simp add: c_def)
  finally have slot: "nat ((st + int k) mod int (length ls)) = j" by (simp add: c_def)
  have "ring_list ls st (length ls) ! k = ring_list ls' st (length ls) ! k"
    using assms by simp
  then show "ls ! j = ls' ! j"
    using k slot assms(1) by (simp add: nth_ring_list)
qed

lemma mod_srb_ok:
  "0 < Capacity s \<Longrightarrow> 0 \<le> x + Capacity s \<Longrightarrow> mod_srb s x = Inr (x mod Capacity s)"
  by (simp add: mod_srb_def Capacity_def go_rem_pos)

lemma wf_not_Full: "wf s \<Longrightarrow> \<not> Full s \<Longrightarrow> 0 < Capacity s \<and> s_length s < Capacity s"
  by (auto simp: wf_def Full_def Capacity_def)

lemma wf_not_Empty: "wf s \<Longrightarrow> \<not> Empty s \<Longrightarrow> 0 < Capacity s \<and> 0 < s_length s"
  by (auto simp: wf_def Empty_def Capacity_def)

lemma wf_pos:
  "wf s \<Longrightarrow> 0 < Capacity s \<Longrightarrow>
     0 \<le> s_length s \<and> s_length s \<le> Capacity s \<and> 0 \<le> s_start s \<and> s_start s < Capacity s \<and>
     s_end s = (s_start s + s_length s) mod Capacity s \<and> 0 \<le> s_end s \<and> s_end s < Capacity s"
  by (simp add: wf_def)

lemma length_contents: "length (contents s) = nat (s_length s)"
  by (simp add: contents_def)

lemma Push_step_grow_eq:
  assumes "wf s" "\<not> Full s"
  shows "Push_step v s = Inr (s\<lparr>s_length := s_length s + 1,
            s_end := (s_end s + 1) mod Capacity s,
            s_lines := (s_lines s)[nat ((s_end s + 1) mod Capacity s) := v]\<rparr>)"
  using assms
  by (auto simp add: Push_step_def wf_def Full_def mod_srb_ok index_set_def Capacity_def split: if_splits)

lemma Push_step_grow:
  assumes "wf s" "\<not> Full s"
  shows "\<exists>s'. Push_step v s = Inr s' \<and> wf s' \<and> Capacity s' = Capacity s \<and>
           s_start s' = s_start s \<and> s_length s' = s_length s + 1 \<and>
           contents s' = contents s @ [v]"
proof -
  define c where "c = int (length (s_lines s))"
  define s' where "s' = s\<lparr>s_length := s_length s + 1,
            s_end := (s_end s + 1) mod Capacity s,
            s_lines := (s_lines s)[nat ((s_end s + 1) mod Capacity s) := v]\<rparr>"
  have cap: "Capacity s = c" by (simp add: Capacity_def c_def)
  from assms have b: "0 < c" "s_length s < c" "0 \<le> s_length s" "0 \<le> s_start s" "s_start s < c"
    and e: "s_end s = (s_start s + s_length s) mod c"
    using wf_not_Full[OF assms] wf_pos[of s] by (simp_all add: cap)
  have e1: "(s_end s + 1) mod c = (s_start s + 1 + s_length s) mod c"
    by (simp add: e mod_simps ac_simps)
  have 1: "Push_step v s = Inr s'"
    unfolding s'_def using assms by (rule Push_step_grow_eq)
  have 2: "Capacity s' = c" by (simp add: s'_def Capacity_def c_def)
  have 3: "wf s'"
    using b by (simp add: wf_def 2) (simp add: s'_def cap e mod_simps ac_simps)
  have ne: "s_lines s \<noteq> []" using b by (auto simp: c_def)
  have n: "nat (s_length s + 1) = Suc (nat (s_length s))" using b by simp
  have 4: "contents s' = contents s @ [v]"
    using b ne
    apply (simp add: contents_def s'_def cap n ring_list_snoc)
    apply (simp add: c_def)
    apply (subst ring_list_update_outside[where d="s_length s"])
    apply (simp_all add: slot_in_range e1[unfolded c_def])
    done
  show ?thesis using 1 2 3 4 by (auto simp: s'_def cap)
qed

lemma wf_Full: "wf s \<Longrightarrow> Full s \<Longrightarrow> s_length s = Capacity s"
  by (simp add: Full_def Capacity_def)

lemma Push_step_full_eq:
  assumes "wf s" "Full s" "0 < Capacity s"
  shows "Push_step v s = Inr (s\<lparr>s_start := (s_start s + 1) mod Capacity s,
            s_end := (s_end s + 1) mod Capacity s,
            s_lines := (s_lines s)[nat ((s_end s + 1) mod Capacity s) := v]\<rparr>)"
  using assms
  by (auto simp add: Push_step_def wf_def Full_def mod_srb_ok index_set_def Capacity_def split: if_splits)

lemma Push_step_full:
  assumes "wf s" "Full s" "0 < Capacity s"
  shows "\<exists>s'. Push_step v s = Inr s' \<and> wf s' \<and> Capacity s' = Capacity s \<and>
           s_start s' = (s_start s + 1) mod Capacity s \<and> s_length s' = s_length s \<and>
           contents s' = tl (contents s) @ [v]"
proof -
  let ?ls = "s_lines s"
  let ?c = "int (length ?ls)"
  let ?ls' = "?ls[nat ((s_end s + 1) mod ?c) := v]"
  define s' where "s' = s\<lparr>s_start := (s_start s + 1) mod Capacity s,
            s_end := (s_end s + 1) mod Capacity s,
            s_lines := (s_lines s)[nat ((s_end s + 1) mod Capacity s) := v]\<rparr>"
  have cap: "Capacity s = ?c" by (simp add: Capacity_def)
  from assms have b: "0 < ?c" "s_length s = ?c" "0 \<le> s_start s" "s_start s < ?c"
    and e: "s_end s = (s_start s + s_length s) mod ?c"
    using wf_pos[of s] wf_Full[of s] by (simp_all add: cap)
  obtain m where m: "length ?ls = Suc m" using b(1) by (cases ?ls) auto
  have n: "nat (s_length s) = Suc m" using b m by simp
  have 1: "Push_step v s = Inr s'"
    unfolding s'_def using assms by (rule Push_step_full_eq)
  have 2: "Capacity s' = ?c" by (simp add: s'_def Capacity_def)
  have 3: "wf s'"
    using b by (simp add: wf_def 2) (simp add: s'_def cap e mod_simps ac_simps)
  have x: "(s_end s + 1) mod ?c = (s_start s + 2 + int m) mod ?c"
    using b(2) m by (simp add: e mod_simps ac_simps)
  have cs: "contents s = ?ls ! nat ((s_start s + 1) mod ?c) # ring_list ?ls (s_start s + 2) m"
    by (simp add: contents_def n ring_list_cons ac_simps)
  have "contents s' = ring_list ?ls' ((s_start s + 1) mod ?c + 1) (Suc m)"
    by (simp add: contents_def s'_def cap n)
  also have "\<dots> = ring_list ?ls' (s_start s + 2) (Suc m)"
    by (rule ring_list_cong_start) (simp add: mod_simps ac_simps)
  also have "\<dots> = ring_list ?ls' (s_start s + 2) m @ [v]"
    using b(1) by (simp add: ring_list_snoc x slot_in_range)
  also have "ring_list ?ls' (s_start s + 2) m = ring_list ?ls (s_start s + 2) m"
    by (rule ring_list_update_outside[where d="int m"]) (use m x in simp_all)
  finally have 4: "contents s' = tl (contents s) @ [v]" by (simp add: cs)
  show ?thesis using 1 2 3 4 b by (auto simp: s'_def cap)
qed

lemma Pop_nonempty_eq:
  assumes "wf s" "\<not> Empty s"
  shows "Pop s = Inr (s_lines s ! nat (s_end s),
           s\<lparr>s_length := s_length s - 1,
             s_lines := (s_lines s)[nat (s_end s) := ''''],
             s_end := (s_end s - 1) mod Capacity s\<rparr>)"
  using assms wf_not_Empty[OF assms] wf_pos[of s]
  by (auto simp add: Pop_def Let_def mod_srb_ok index_set_def index_get_def Capacity_def)

lemma Pop_nonempty:
  assumes "wf s" "\<not> Empty s"
  shows "\<exists>s'. Pop s = Inr (last (contents s), s') \<and> wf s' \<and> Capacity s' = Capacity s \<and>
           s_start s' = s_start s \<and> s_length s' = s_length s - 1 \<and>
           contents s' = butlast (contents s)"
proof -
  let ?ls = "s_lines s"
  let ?c = "int (length ?ls)"
  let ?ls' = "?ls[nat (s_end s) := '''']"
  define s' where "s' = s\<lparr>s_length := s_length s - 1,
             s_lines := (s_lines s)[nat (s_end s) := ''''],
             s_end := (s_end s - 1) mod Capacity s\<rparr>"
  have cap: "Capacity s = ?c" by (simp add: Capacity_def)
  from assms have b: "0 < ?c" "0 < s_length s" "s_length s \<le> ?c" "0 \<le> s_start s" "s_start s < ?c"
    and e: "s_end s = (s_start s + s_length s) mod ?c"
    using wf_pos[of s] wf_not_Empty[OF assms] by (simp_all add: cap)
  obtain m where n: "nat (s_length s) = Suc m" using b(2) by (cases "nat (s_length s)") auto
  then have m: "s_length s = int m + 1" by linarith
  have 1: "Pop s = Inr (?ls ! nat (s_end s), s')"
    unfolding s'_def using assms by (rule Pop_nonempty_eq)
  have 2: "Capacity s' = ?c" by (simp add: s'_def Capacity_def)
  have 3: "wf s'"
    using b by (simp add: wf_def 2) (simp add: s'_def cap e mod_simps algebra_simps)
  have cs: "contents s = ring_list ?ls (s_start s + 1) m @ [?ls ! nat (s_end s)]"
    unfolding contents_def n ring_list_snoc by (simp add: e m ac_simps)
  have em: "s_end s = s_end s mod ?c" by (simp add: e)
  have "contents s' = ring_list ?ls' (s_start s + 1) m"
    using n by (simp add: contents_def s'_def m)
  also have "?ls' = ?ls[nat (s_end s mod ?c) := '''']" using em by simp
  also have "ring_list \<dots> (s_start s + 1) m = ring_list ?ls (s_start s + 1) m"
    using b(3) by (intro ring_list_update_outside[where d="int m"]) (simp_all add: m e ac_simps)
  finally have 4: "contents s' = butlast (contents s)" by (simp add: cs)
  show ?thesis using 1 2 3 4 by (auto simp: s'_def cap cs)
qed

lemma Shift_nonempty_eq:
  assumes "wf s" "\<not> Empty s"
  shows "Shift s = Inr (s_lines s ! nat ((s_start s + 1) mod Capacity s),
           s\<lparr>s_length := s_length s - 1,
             s_start := (s_start s + 1) mod Capacity s,
             s_lines := (s_lines s)[nat ((s_start s + 1) mod Capacity s) := '''']\<rparr>)"
  using assms wf_not_Empty[OF assms] wf_pos[of s]
  by (auto simp add: Shift_def Let_def mod_srb_ok index_set_def index_get_def Capacity_def)

lemma Shift_nonempty:
  assumes "wf s" "\<not> Empty s"
  shows "\<exists>s'. Shift s = Inr (hd (contents s), s') \<and> wf s' \<and> Capacity s' = Capacity s \<and>
           s_start s' = (s_start s + 1) mod Capacity s \<and> s_length s' = s_length s - 1 \<and>
           contents s' = tl (contents s)"
proof -
  let ?ls = "s_lines s"
  let ?c = "int (length ?ls)"
  let ?ls' = "?ls[nat ((s_start s + 1) mod ?c) := '''']"
  define s' where "s' = s\<lparr>s_length := s_length s - 1,
             s_start := (s_start s + 1) mod Capacity s,
             s_lines := (s_lines s)[nat ((s_start s + 1) mod Capacity s) := '''']\<rparr>"
  have cap: "Capacity s = ?c" by (simp add: Capacity_def)
  from assms have b: "0 < ?c" "0 < s_length s" "s_length s \<le> ?c" "0 \<le> s_start s" "s_start s < ?c"
    and e: "s_end s = (s_start s + s_length s) mod ?c"
    using wf_pos[of s] wf_not_Empty[OF assms] by (simp_all add: cap)
  obtain m where n: "nat (s_length s) = Suc m" using b(2) by (cases "nat (s_length s)") auto
  then have m: "s_length s = int m + 1" by linarith
  have 1: "Shift s = Inr (?ls ! nat ((s_start s + 1) mod ?c), s')"
    unfolding s'_def cap[symmetric] using assms by (rule Shift_nonempty_eq)
  have 2: "Capacity s' = ?c" by (simp add: s'_def Capacity_def)
  have 3: "wf s'"
    using b by (simp add: wf_def 2) (simp add: s'_def cap e mod_simps ac_simps)
  have cs: "contents s = ?ls ! nat ((s_start s + 1) mod ?c) # ring_list ?ls (s_start s + 2) m"
    by (simp add: contents_def n ring_list_cons ac_simps)
  have "contents s' = ring_list ?ls' ((s_start s + 1) mod ?c + 1) m"
    using n by (simp add: contents_def s'_def cap m)
  also have "\<dots> = ring_list ?ls' (s_start s + 2) m"
    by (rule ring_list_cong_start) (simp add: mod_simps ac_simps)
  also have "\<dots> = ring_list ?ls (s_start s + 2) m"
  proof (rule ring_list_update_outside[where d="?c - 1"])
    show "int m \<le> ?c - 1" using b(3) m by simp
    show "?c - 1 < ?c" by simp
    have "s_start s + 2 + (?c - 1) = (s_start s + 1) + ?c" by simp
    then show "(s_start s + 1) mod ?c = (s_start s + 2 + (?c - 1)) mod ?c"
      by (simp only: mod_add_self2)
  qed
  finally have 4: "contents s' = tl (contents s)" by (simp add: cs)
  show ?thesis using 1 2 3 4 by (auto simp: s'_def cap cs)
qed

lemma Unshift_step_grow_eq:
  assumes "wf s" "\<not> Full s"
  shows "Unshift_step v s = Inr (s\<lparr>s_length := s_length s + 1,
            s_lines := (s_lines s)[nat (s_start s) := v],
            s_start := (s_start s - 1) mod Capacity s\<rparr>)"
  using assms wf_not_Full[OF assms] wf_pos[of s]
  by (auto simp add: Unshift_step_def Let_def mod_srb_ok index_set_def Capacity_def)

lemma Unshift_step_grow:
  assumes "wf s" "\<not> Full s"
  shows "\<exists>s'. Unshift_step v s = Inr s' \<and> wf s' \<and> Capacity s' = Capacity s \<and>
           s_length s' = s_length s + 1 \<and> contents s' = v # contents s"
proof -
  let ?ls = "s_lines s"
  let ?c = "int (length ?ls)"
  let ?ls' = "?ls[nat (s_start s mod ?c) := v]"
  define s' where "s' = s\<lparr>s_length := s_length s + 1,
            s_lines := (s_lines s)[nat (s_start s) := v],
            s_start := (s_start s - 1) mod Capacity s\<rparr>"
  have cap: "Capacity s = ?c" by (simp add: Capacity_def)
  from assms have b: "0 < ?c" "0 \<le> s_length s" "s_length s < ?c" "0 \<le> s_start s" "s_start s < ?c"
    and e: "s_end s = (s_start s + s_length s) mod ?c"
    using wf_pos[of s] wf_not_Full[OF assms] by (simp_all add: cap)
  have n: "nat (s_length s + 1) = Suc (nat (s_length s))" using b by simp
  have st: "s_start s mod ?c = s_start s" using b by simp
  have 1: "Unshift_step v s = Inr s'"
    unfolding s'_def using assms by (rule Unshift_step_grow_eq)
  have 2: "Capacity s' = ?c" by (simp add: s'_def Capacity_def)
  have 3: "wf s'"
  proof -
    have "s_end s' = (s_start s' + s_length s') mod ?c"
      by (simp add: s'_def cap e mod_simps; simp add: algebra_simps)
    then show ?thesis using b by (simp add: wf_def 2) (simp add: s'_def cap)
  qed
  have "contents s' = ring_list ?ls' ((s_start s - 1) mod ?c + 1) (Suc (nat (s_length s)))"
    by (simp add: contents_def s'_def cap n st)
  also have "\<dots> = ring_list ?ls' (s_start s) (Suc (nat (s_length s)))"
    by (rule ring_list_cong_start) (simp add: mod_simps)
  also have "\<dots> = v # ring_list ?ls' (s_start s + 1) (nat (s_length s))"
    using b(1) by (simp add: ring_list_cons slot_in_range)
  also have "ring_list ?ls' (s_start s + 1) (nat (s_length s))
      = ring_list ?ls (s_start s + 1) (nat (s_length s))"
  proof (rule ring_list_update_outside[where d="?c - 1"])
    show "int (nat (s_length s)) \<le> ?c - 1" using b by simp
    show "?c - 1 < ?c" by simp
    have "s_start s + 1 + (?c - 1) = s_start s + ?c" by simp
    then show "s_start s mod ?c = (s_start s + 1 + (?c - 1)) mod ?c"
      by (simp only: mod_add_self2)
  qed
  finally have 4: "contents s' = v # contents s" by (simp add: contents_def)
  show ?thesis using 1 2 3 4 by (auto simp: s'_def cap)
qed

lemma Unshift_step_full_eq:
  assumes "wf s" "Full s" "0 < Capacity s"
  shows "Unshift_step v s = Inr (s\<lparr>s_end := (s_end s - 1) mod Capacity s,
            s_lines := (s_lines s)[nat (s_start s) := v],
            s_start := (s_start s - 1) mod Capacity s\<rparr>)"
  using assms wf_pos[of s]
  by (auto simp add: Unshift_step_def Let_def mod_srb_ok index_set_def Capacity_def)

lemma Unshift_step_full:
  assumes "wf s" "Full s" "0 < Capacity s"
  shows "\<exists>s'. Unshift_step v s = Inr s' \<and> wf s' \<and> Capacity s' = Capacity s \<and>
           s_length s' = s_length s \<and> contents s' = v # butlast (contents s)"
proof -
  let ?ls = "s_lines s"
  let ?c = "int (length ?ls)"
  let ?ls' = "?ls[nat (s_start s mod ?c) := v]"
  define s' where "s' = s\<lparr>s_end := (s_end s - 1) mod Capacity s,
            s_lines := (s_lines s)[nat (s_start s) := v],
            s_start := (s_start s - 1) mod Capacity s\<rparr>"
  have cap: "Capacity s = ?c" by (simp add: Capacity_def)
  from assms have b: "0 < ?c" "s_length s = ?c" "0 \<le> s_start s" "s_start s < ?c"
    and e: "s_end s = (s_start s + s_length s) mod ?c"
    using wf_pos[of s] wf_Full[of s] by (simp_all add: cap)
  obtain m where m: "length ?ls = Suc m" using b(1) by (cases ?ls) auto
  have n: "nat (s_length s) = Suc m" using b m by simp
  have st: "s_start s mod ?c = s_start s" using b by simp
  have 1: "Unshift_step v s = Inr s'"
    unfolding s'_def using assms by (rule Unshift_step_full_eq)
  have 2: "Capacity s' = ?c" by (simp add: s'_def Capacity_def)
  have 3: "wf s'"
  proof -
    have "s_end s' = (s_start s' + s_length s') mod ?c"
      by (simp add: s'_def cap e mod_simps; simp add: algebra_simps)
    then show ?thesis using b by (simp add: wf_def 2) (simp add: s'_def cap)
  qed
  have cs: "butlast (contents s) = ring_list ?ls (s_start s + 1) m"
    unfolding contents_def n ring_list_snoc by simp
  have "contents s' = ring_list ?ls' ((s_start s - 1) mod ?c + 1) (Suc m)"
    by (simp add: contents_def s'_def cap n st)
  also have "\<dots> = ring_list ?ls' (s_start s) (Suc m)"
    by (rule ring_list_cong_start) (simp add: mod_simps)
  also have "\<dots> = v # ring_list ?ls' (s_start s + 1) m"
    using b(1) by (simp add: ring_list_cons slot_in_range)
  also have "ring_list ?ls' (s_start s + 1) m = ring_list ?ls (s_start s + 1) m"
  proof (rule ring_list_update_outside[where d="?c - 1"])
    show "int m \<le> ?c - 1" using m by simp
    show "?c - 1 < ?c" by simp
    have "s_start s + 1 + (?c - 1) = s_start s + ?c" by simp
    then show "s_start s mod ?c = (s_start s + 1 + (?c - 1)) mod ?c"
      by (simp only: mod_add_self2)
  qed
  finally have 4: "contents s' = v # butlast (contents s)" by (simp add: cs)
  show ?thesis using 1 2 3 4 b by (auto simp: s'_def cap)
qed

lemma go_rem_zero: "go_rem x 0 = Inl DivideByZero"
  by (simp add: go_rem_def)

lemma mod_srb_Capacity0: "Capacity s = 0 \<Longrightarrow> mod_srb s x = Inl DivideByZero"
  by (simp add: mod_srb_def Capacity_def go_rem_zero)

lemma Push_step_Capacity0: "Capacity s = 0 \<Longrightarrow> Push_step v s = Inl DivideByZero"
  by (simp add: Push_step_def mod_srb_def go_rem_zero Capacity_def)

lemma Unshift_step_Capacity0: "Capacity s = 0 \<Longrightarrow> \<exists>e. Unshift_step v s = Inl e"
  by (simp add: Unshift_step_def mod_srb_def go_rem_zero Capacity_def index_set_def)

lemma Push_step_wf:
  assumes "wf s" "Push_step v s = Inr s'"
  shows "wf s' \<and> Capacity s' = Capacity s"
proof (cases "Full s")
  case False
  with assms Push_step_grow[of s v] show ?thesis by auto
next
  case True
  have "Capacity s \<noteq> 0" using assms(2) Push_step_Capacity0[of s v] by auto
  then have "0 < Capacity s" by (simp add: Capacity_def)
  with True assms Push_step_full[of s v] show ?thesis by auto
qed

lemma Unshift_step_wf:
  assumes "wf s" "Unshift_step v s = Inr s'"
  shows "wf s' \<and> Capacity s' = Capacity s"
proof (cases "Full s")
  case False
  with assms Unshift_step_grow[of s v] show ?thesis by auto
next
  case True
  have "Capacity s \<noteq> 0" using assms(2) Unshift_step_Capacity0[of s v] by auto
  then have "0 < Capacity s" by (simp add: Capacity_def)
  with True assms Unshift_step_full[of s v] show ?thesis by auto
qed

lemma Push_wf: "wf s \<Longrightarrow> Push vs s = Inr s' \<Longrightarrow> wf s' \<and> Capacity s' = Capacity s"
proof (induction vs arbitrary: s)
  case Nil
  then show ?case by simp
next
  case (Cons v vs)
  from Cons.prems(2) obtain s1 where s1: "Push_step v s = Inr s1" "Push vs s1 = Inr s'"
    by (cases "Push_step v s") auto
  from Push_step_wf[OF Cons.prems(1) s1(1)] Cons.IH[OF _ s1(2)] show ?case by simp
qed

lemma Unshift_wf: "wf s \<Longrightarrow> Unshift vs s = Inr s' \<Longrightarrow> wf s' \<and> Capacity s' = Capacity s"
proof (induction vs arbitrary: s)
  case Nil
  then show ?case by simp
next
  case (Cons v vs)
  from Cons.prems(2) obtain s1 where s1: "Unshift_step v s = Inr s1" "Unshift vs s1 = Inr s'"
    by (cases "Unshift_step v s") auto
  from Unshift_step_wf[OF Cons.prems(1) s1(1)] Cons.IH[OF _ s1(2)] show ?case by simp
qed

lemma Pop_Empty: "Empty s \<Longrightarrow> Pop s = Inr ('''', s)"
  by (simp add: Pop_def)

lemma Shift_Empty: "Empty s \<Longrightarrow> Shift s = Inr ('''', s)"
  by (simp add: Shift_def)

lemma Pop_wf: "wf s \<Longrightarrow> Pop s = Inr (x, s') \<Longrightarrow> wf s' \<and> Capacity s' = Capacity s"
  using Pop_nonempty[of s] Pop_Empty[of s] by (cases "Empty s") auto

lemma Shift_wf: "wf s \<Longrightarrow> Shift s = Inr (x, s') \<Longrightarrow> wf s' \<and> Capacity s' = Capacity s"
  using Shift_nonempty[of s] Shift_Empty[of s] by (cases "Empty s") auto

lemma NewStRingBuffer_wf:
  "NewStRingBuffer sz = Inr s \<Longrightarrow> wf s \<and> Empty s \<and> Capacity s = sz"
  by (auto simp: NewStRingBuffer_def make_strings_def wf_def Empty_def Capacity_def
      split: if_splits)

lemma reachable_wf: "reachable s \<Longrightarrow> wf s"
proof (induction rule: reachable.induct)
  case (new sz s)
  then show ?case by (simp add: NewStRingBuffer_wf)
next
  case (push s vs s')
  then show ?case by (simp add: Push_wf)
next
  case (pop s x s')
  then show ?case using Pop_wf by blast
next
  case (unshift s vs s')
  then show ?case by (simp add: Unshift_wf)
next
  case (shift s x s')
  then show ?case using Shift_wf by blast
qed

lemma contents_Empty: "Empty s \<Longrightarrow> contents s = []"
  by (simp add: contents_def Empty_def ring_list_def)

lemma Empty_iff_contents: "wf s \<Longrightarrow> Empty s \<longleftrightarrow> contents s = []"
  by (auto simp: contents_Empty) (auto simp: contents_def ring_list_def Empty_def wf_def)

lemma Push_grow:
  assumes "wf s" "s_length s + int (length vs) \<le> Capacity s"
  shows "\<exists>s'. Push vs s = Inr s' \<and> wf s' \<and> Capacity s' = Capacity s \<and>
           s_start s' = s_start s \<and> s_length s' = s_length s + int (length vs) \<and>
           contents s' = contents s @ vs"
  using assms
proof (induction vs arbitrary: s)
  case Nil
  then show ?case by simp
next
  case (Cons v vs)
  from Cons.prems have "\<not> Full s" by (auto simp: Full_def Capacity_def)
  from Push_step_grow[OF Cons.prems(1) this, of v] obtain s1 where
    s1: "Push_step v s = Inr s1" "wf s1" "Capacity s1 = Capacity s" "s_start s1 = s_start s"
      "s_length s1 = s_length s + 1" "contents s1 = contents s @ [v]"
    by blast
  from Cons.prems(2) s1 have "s_length s1 + int (length vs) \<le> Capacity s1" by simp
  from Cons.IH[OF s1(2) this] s1 show ?case by auto
qed

lemma Unshift_grow:
  assumes "wf s" "s_length s + int (length vs) \<le> Capacity s"
  shows "\<exists>s'. Unshift vs s = Inr s' \<and> wf s' \<and> Capacity s' = Capacity s \<and>
           s_length s' = s_length s + int (length vs) \<and>
           contents s' = rev vs @ contents s"
  using assms
proof (induction vs arbitrary: s)
  case Nil
  then show ?case by simp
next
  case (Cons v vs)
  from Cons.prems have "\<not> Full s" by (auto simp: Full_def Capacity_def)
  from Unshift_step_grow[OF Cons.prems(1) this, of v] obtain s1 where
    s1: "Unshift_step v s = Inr s1" "wf s1" "Capacity s1 = Capacity s"
      "s_length s1 = s_length s + 1" "contents s1 = v # contents s"
    by blast
  from Cons.prems(2) s1 have "s_length s1 + int (length vs) \<le> Capacity s1" by simp
  from Cons.IH[OF s1(2) this] s1 show ?case by auto
qed

lemma Pops_all:
  assumes "wf s" "n = nat (s_length s)"
  shows "\<exists>s'. Pops n s = Inr (rev (contents s), s') \<and> wf s' \<and> Empty s' \<and>
           Capacity s' = Capacity s"
  using assms
proof (induction n arbitrary: s)
  case 0
  then have "Empty s" by (simp add: Empty_def wf_def)
  with 0 show ?case by (simp add: contents_Empty)
next
  case (Suc n)
  then have ne: "\<not> Empty s" by (auto simp: Empty_def)
  from Pop_nonempty[OF Suc.prems(1) ne] obtain s1 where
    s1: "Pop s = Inr (last (contents s), s1)" "wf s1" "Capacity s1 = Capacity s"
      "s_length s1 = s_length s - 1" "contents s1 = butlast (contents s)"
    by blast
  from Suc.prems(2) s1(4) have "n = nat (s_length s1)" by simp
  from Suc.IH[OF s1(2) this] obtain s' where
    s': "Pops n s1 = Inr (rev (contents s1), s')" "wf s'" "Empty s'" "Capacity s' = Capacity s1"
    by blast
  have "contents s \<noteq> []" using ne Suc.prems(1) by (simp add: Empty_iff_contents)
  then have "last (contents s) # rev (butlast (contents s)) = rev (contents s)"
    by (metis append_butlast_last_id rev.simps(2) rev_rev_ident rev_singleton_conv rev_append append_Cons append_Nil)
  with s1 s' show ?case by simp
qed

lemma Shifts_all:
  assumes "wf s" "n = nat (s_length s)"
  shows "\<exists>s'. Shifts n s = Inr (contents s, s') \<and> wf s' \<and> Empty s' \<and>
           Capacity s' = Capacity s"
  using assms
proof (induction n arbitrary: s)
  case 0
  then have "Empty s" by (simp add: Empty_def wf_def)
  with 0 show ?case by (simp add: contents_Empty)
next
  case (Suc n)
  then have ne: "\<not> Empty s" by (auto simp: Empty_def)
  from Shift_nonempty[OF Suc.prems(1) ne] obtain s1 where
    s1: "Shift s = Inr (hd (contents s), s1)" "wf s1" "Capacity s1 = Capacity s"
      "s_length s1 = s_length s - 1" "contents s1 = tl (contents s)"
    by blast
  from Suc.prems(2) s1(4) have "n = nat (s_length s1)" by simp
  from Suc.IH[OF s1(2) this] obtain s' where
    s': "Shifts n s1 = Inr (contents s1, s')" "wf s'" "Empty s'" "Capacity s' = Capacity s1"
    by blast
  have "contents s \<noteq> []" using ne Suc.prems(1) by (simp add: Empty_iff_contents)
  then have "hd (contents s) # tl (contents s) = contents s" by simp
  with s1 s' show ?case by simp
qed

lemma Push_append: "Push (xs @ ys) s = bind_res (Push xs s) (Push ys)"
proof (induction xs arbitrary: s)
  case Nil
  then show ?case by simp
next
  case (Cons x xs)
  then show ?case by (cases "Push_step x s") simp_all
qed

lemma Push_single: "Push [v] s = Push_step v s"
  by (cases "Push_step v s") simp_all

lemma full_state_determined:
  assumes "wf s" "wf s'" "Full s" "Full s'" "Capacity s = Capacity s'"
    "s_start s = s_start s'" "contents s = contents s'"
  shows "s = s'"
proof -
  have len: "length (s_lines s) = length (s_lines s')"
    using assms(5) by (simp add: Capacity_def)
  have n: "nat (s_length s) = length (s_lines s)" "nat (s_length s') = length (s_lines s)"
    using assms(3,4) len by (simp_all add: Full_def)
  have "ring_list (s_lines s) (s_start s + 1) (length (s_lines s))
      = ring_list (s_lines s') (s_start s + 1) (length (s_lines s))"
    using assms(6,7) n by (simp add: contents_def)
  with len have lines: "s_lines s = s_lines s'" by (rule ring_list_full_inj)
  have l: "s_length s = s_length s'" using assms(3,4) len by (simp add: Full_def)
  have "s_end s = s_end s'"
    using assms(1,2,5,6) l by (auto simp: wf_def split: if_splits)
  with lines l assms(6) show ?thesis by simp
qed

lemma Push_overflow_by_one:
  assumes "wf s" "Empty s" "1 \<le> Capacity s" "int (length vs) = Capacity s"
  shows "\<exists>s1. Push (v # vs) s = Inr s1 \<and> wf s1 \<and> Full s1 \<and> Capacity s1 = Capacity s \<and>
           s_start s1 = (s_start s + 1) mod Capacity s \<and> contents s1 = vs"
proof -
  from assms have ne: "vs \<noteq> []" by auto
  then have split: "v # vs = (v # butlast vs) @ [last vs]" by simp
  have l: "int (length (v # butlast vs)) = Capacity s" using assms(4) ne by simp
  have e: "s_length s = 0" "contents s = []" using assms(2) by (simp_all add: Empty_def contents_Empty)
  from Push_grow[OF assms(1), of "v # butlast vs"] l e obtain sa where
    sa: "Push (v # butlast vs) s = Inr sa" "wf sa" "Capacity sa = Capacity s"
      "s_start sa = s_start s" "s_length sa = Capacity s" "contents sa = v # butlast vs"
    by auto
  have fa: "Full sa" using sa(3,5) by (simp add: Full_def Capacity_def)
  from Push_step_full[OF sa(2) fa, of "last vs"] sa assms(3) obtain s1 where
    s1: "Push_step (last vs) sa = Inr s1" "wf s1" "Capacity s1 = Capacity s"
      "s_start s1 = (s_start s + 1) mod Capacity s" "s_length s1 = Capacity s"
      "contents s1 = tl (v # butlast vs) @ [last vs]"
    by auto
  have "Push (v # vs) s = Inr s1"
    by (subst split, subst Push_append) (simp add: sa(1) Push_single s1(1) del: Push.simps)
  moreover have "Full s1" using s1(3,5) by (simp add: Full_def Capacity_def)
  moreover have "contents s1 = vs" using s1(6) ne by simp
  ultimately show ?thesis using s1 by auto
qed

lemma Map_loop_thread:
  assumes "wf s" "contents s = xs @ zs"
  shows "\<exists>s'. Map_loop (length xs) f s c = Inr (s', snd (thread f xs c)) \<and> wf s' \<and>
           Capacity s' = Capacity s \<and> s_length s' = s_length s \<and>
           contents s' = zs @ fst (thread f xs c)"
  using assms
proof (induction xs arbitrary: s c zs)
  case Nil
  then show ?case by simp
next
  case (Cons x xs)
  obtain y c1 where f: "f x c = (y, c1)" by (cases "f x c")
  obtain ys c2 where t: "thread f xs c1 = (ys, c2)" by (cases "thread f xs c1")
  from Cons.prems have ne: "\<not> Empty s" by (simp add: Empty_iff_contents)
  from Shift_nonempty[OF Cons.prems(1) ne] Cons.prems(2) obtain s1 where
    s1: "Shift s = Inr (x, s1)" "wf s1" "Capacity s1 = Capacity s"
      "s_length s1 = s_length s - 1" "contents s1 = xs @ zs"
    by auto
  from Cons.prems(1) s1 have "\<not> Full s1" by (auto simp: Full_def wf_def Capacity_def)
  from Push_step_grow[OF s1(2) this, of y] s1 obtain s2 where
    s2: "Push [y] s1 = Inr s2" "wf s2" "Capacity s2 = Capacity s"
      "s_length s2 = s_length s" "contents s2 = xs @ (zs @ [y])"
    by (auto simp: Push_single simp del: Push.simps)
  from Cons.IH[OF s2(2) s2(5), of c1] t obtain s' where
    s': "Map_loop (length xs) f s2 c1 = Inr (s', c2)" "wf s'" "Capacity s' = Capacity s2"
      "s_length s' = s_length s2" "contents s' = (zs @ [y]) @ ys"
    by auto
  show ?case using s1(1) s2(1) s' f t s2(3,4) by (simp del: Push.simps)
qed

lemma thread_pure_fn: "thread (pure_fn g) xs c = (map g xs, c)"
  by (induction xs) (simp_all add: pure_fn_def)

section \<open>The claims about \<open>src/stRingBuffer/stRingBuffer.go\<close>\<close>

text \<open>
  C9: on a buffer whose count is 0, \<open>Pop\<close> and \<open>Shift\<close> each return the empty string
  and hand the buffer back with \<open>start\<close>, \<open>end\<close>, the count and every slot as they were.
\<close>

theorem Pop_Shift_on_empty_change_nothing:
  "s_length s = 0 \<Longrightarrow> Pop s = Inr ('''', s) \<and> Shift s = Inr ('''', s)"
  by (simp add: Pop_def Shift_def Empty_def)

theorem Pop_Shift_on_empty_change_nothing_witness:
  "s_length \<lparr>s_start = 1, s_end = 1, s_lines = [''x'', ''''], s_length = 0\<rparr> = 0 \<and>
   Pop \<lparr>s_start = 1, s_end = 1, s_lines = [''x'', ''''], s_length = 0\<rparr>
     = Inr ('''', \<lparr>s_start = 1, s_end = 1, s_lines = [''x'', ''''], s_length = 0\<rparr>) \<and>
   Shift \<lparr>s_start = 1, s_end = 1, s_lines = [''x'', ''''], s_length = 0\<rparr>
     = Inr ('''', \<lparr>s_start = 1, s_end = 1, s_lines = [''x'', ''''], s_length = 0\<rparr>)"
  using Pop_Shift_on_empty_change_nothing
    [of "\<lparr>s_start = 1, s_end = 1, s_lines = [''x'', ''''], s_length = 0\<rparr>"]
  by simp

text \<open>
  C3: pushing \<open>v1 .. vn\<close> onto an empty buffer that a caller can hold, with \<open>n\<close> at
  most the capacity, and then calling \<open>Pop\<close> \<open>n\<close> times returns \<open>vn, .., v1\<close> and leaves
  the buffer empty. No call panics.
\<close>

theorem Push_then_Pops_reverses:
  assumes "reachable s" "Empty s" "int (length vs) \<le> Capacity s"
  shows "\<exists>s'. Push_Pops vs s = Inr (rev vs, s') \<and> Empty s'"
proof -
  have w: "wf s" using assms(1) by (rule reachable_wf)
  have e: "s_length s = 0" "contents s = []"
    using assms(2) by (simp_all add: Empty_def contents_Empty)
  from Push_grow[OF w, of vs] assms(3) e obtain s1 where
    s1: "Push vs s = Inr s1" "wf s1" "s_length s1 = int (length vs)" "contents s1 = vs"
    by auto
  from Pops_all[OF s1(2), of "length vs"] s1(3,4) obtain s' where
    "Pops (length vs) s1 = Inr (rev vs, s')" "Empty s'"
    by auto
  with s1(1) show ?thesis by (auto simp: Push_Pops_def)
qed

theorem Push_then_Pops_reverses_witness:
  "reachable \<lparr>s_start = 0, s_end = 0, s_lines = ['''', '''', ''''], s_length = 0\<rparr> \<and>
   Empty \<lparr>s_start = 0, s_end = 0, s_lines = ['''', '''', ''''], s_length = 0\<rparr> \<and>
   int (length [''1'', ''2'']) \<le>
     Capacity \<lparr>s_start = 0, s_end = 0, s_lines = ['''', '''', ''''], s_length = 0\<rparr> \<and>
   (\<exists>s'. Push_Pops [''1'', ''2'']
           \<lparr>s_start = 0, s_end = 0, s_lines = ['''', '''', ''''], s_length = 0\<rparr>
         = Inr ([''2'', ''1''], s') \<and> Empty s')"
proof -
  let ?s = "\<lparr>s_start = 0, s_end = 0, s_lines = ['''', '''', ''''], s_length = 0\<rparr>"
  have "NewStRingBuffer 3 = Inr ?s" by code_simp
  then have r: "reachable ?s" by (rule reachable.new)
  have e: "Empty ?s" by (simp add: Empty_def)
  have l: "int (length [''1'', ''2'']) \<le> Capacity ?s" by (simp add: Capacity_def)
  from Push_then_Pops_reverses[OF r e l] r e l show ?thesis by simp
qed

text \<open>
  C1, as the code has it: \<open>Unshift(v1, .., vn)\<close> on an empty buffer that a caller can
  hold, with \<open>n\<close> at most the capacity, followed by \<open>n\<close> calls of \<open>Shift\<close>, returns the
  values in the reverse of the order of the arguments, \<open>vn, .., v1\<close>, and leaves the
  buffer empty: each argument is put in front of the ones before it. The test
  \<open>TestAddTake\<close> expects \<open>Unshift("4", "3", "2", "1")\<close> to be drained by \<open>Shift\<close> as
  \<open>"123"\<close>.
\<close>

theorem Unshift_then_Shifts_reverses:
  assumes "reachable s" "Empty s" "int (length vs) \<le> Capacity s"
  shows "\<exists>s'. Unshift_Shifts vs s = Inr (rev vs, s') \<and> Empty s'"
proof -
  have w: "wf s" using assms(1) by (rule reachable_wf)
  have e: "s_length s = 0" "contents s = []"
    using assms(2) by (simp_all add: Empty_def contents_Empty)
  from Unshift_grow[OF w, of vs] assms(3) e obtain s1 where
    s1: "Unshift vs s = Inr s1" "wf s1" "s_length s1 = int (length vs)" "contents s1 = rev vs"
    by auto
  from Shifts_all[OF s1(2), of "length vs"] s1(3,4) obtain s' where
    "Shifts (length vs) s1 = Inr (rev vs, s')" "Empty s'"
    by auto
  with s1(1) show ?thesis by (auto simp: Unshift_Shifts_def)
qed

theorem Unshift_then_Shifts_reverses_witness:
  "reachable \<lparr>s_start = 0, s_end = 0, s_lines = ['''', '''', ''''], s_length = 0\<rparr> \<and>
   Empty \<lparr>s_start = 0, s_end = 0, s_lines = ['''', '''', ''''], s_length = 0\<rparr> \<and>
   int (length [''3'', ''2'', ''1'']) \<le>
     Capacity \<lparr>s_start = 0, s_end = 0, s_lines = ['''', '''', ''''], s_length = 0\<rparr> \<and>
   (\<exists>s'. Unshift_Shifts [''3'', ''2'', ''1'']
           \<lparr>s_start = 0, s_end = 0, s_lines = ['''', '''', ''''], s_length = 0\<rparr>
         = Inr ([''1'', ''2'', ''3''], s') \<and> Empty s')"
proof -
  let ?s = "\<lparr>s_start = 0, s_end = 0, s_lines = ['''', '''', ''''], s_length = 0\<rparr>"
  have "NewStRingBuffer 3 = Inr ?s" by code_simp
  then have r: "reachable ?s" by (rule reachable.new)
  have e: "Empty ?s" by (simp add: Empty_def)
  have l: "int (length [''3'', ''2'', ''1'']) \<le> Capacity ?s" by (simp add: Capacity_def)
  from Unshift_then_Shifts_reverses[OF r e l] r e l show ?thesis by simp
qed

text \<open>
  C1, as the claim states it, fails: on a new buffer of capacity 2, \<open>Unshift("a", "b")\<close>
  followed by two calls of \<open>Shift\<close> returns \<open>"b"\<close> and then \<open>"a"\<close>, not \<open>"a"\<close> and then
  \<open>"b"\<close>.
\<close>

theorem Unshift_then_Shifts_counterexample:
  "returned (bind_res (NewStRingBuffer 2) (Unshift_Shifts [''a'', ''b''])) = Inr [''b'', ''a''] \<and>
   returned (bind_res (NewStRingBuffer 2) (Unshift_Shifts [''a'', ''b''])) \<noteq> Inr [''a'', ''b'']"
  by code_simp

text \<open>
  C4: pushing \<open>c + 1\<close> values \<open>v, v2, .., v(c+1)\<close> onto an empty buffer of capacity
  \<open>c \<ge> 1\<close> that a caller can hold leaves a full buffer whose live lines are
  \<open>v2, .., v(c+1)\<close>; \<open>c\<close> calls of \<open>Shift\<close> return them in that order and empty the
  buffer. The first value leaves no trace: the buffer after the call is the same
  whatever the first value was, so no later operation can depend on it.
\<close>

theorem Push_past_capacity_evicts_oldest:
  assumes "reachable s" "Empty s" "1 \<le> Capacity s" "int (length vs) = Capacity s"
  shows "\<exists>s1 s2. Push (v # vs) s = Inr s1 \<and> Full s1 \<and> contents s1 = vs \<and>
           Shifts (length vs) s1 = Inr (vs, s2) \<and> Empty s2 \<and>
           (\<forall>v'. Push (v' # vs) s = Inr s1)"
proof -
  have w: "wf s" using assms(1) by (rule reachable_wf)
  from Push_overflow_by_one[OF w assms(2,3,4), of v] obtain s1 where
    s1: "Push (v # vs) s = Inr s1" "wf s1" "Full s1" "Capacity s1 = Capacity s"
      "s_start s1 = (s_start s + 1) mod Capacity s" "contents s1 = vs"
    by blast
  have n: "length vs = nat (s_length s1)"
    using s1(3,4) assms(4) by (simp add: Full_def Capacity_def)
  from Shifts_all[OF s1(2) n] s1(6) obtain s2 where
    s2: "Shifts (length vs) s1 = Inr (vs, s2)" "Empty s2"
    by auto
  have "Push (v' # vs) s = Inr s1" for v'
  proof -
    from Push_overflow_by_one[OF w assms(2,3,4), of v'] obtain s1' where
      s1': "Push (v' # vs) s = Inr s1'" "wf s1'" "Full s1'" "Capacity s1' = Capacity s"
        "s_start s1' = (s_start s + 1) mod Capacity s" "contents s1' = vs"
      by blast
    have "s1' = s1"
      using s1 s1' by (intro full_state_determined) simp_all
    with s1'(1) show ?thesis by simp
  qed
  with s1 s2 show ?thesis by blast
qed

theorem Push_past_capacity_evicts_oldest_witness:
  "reachable \<lparr>s_start = 0, s_end = 0, s_lines = ['''', '''', ''''], s_length = 0\<rparr> \<and>
   Empty \<lparr>s_start = 0, s_end = 0, s_lines = ['''', '''', ''''], s_length = 0\<rparr> \<and>
   1 \<le> Capacity \<lparr>s_start = 0, s_end = 0, s_lines = ['''', '''', ''''], s_length = 0\<rparr> \<and>
   int (length [''2'', ''3'', ''4'']) =
     Capacity \<lparr>s_start = 0, s_end = 0, s_lines = ['''', '''', ''''], s_length = 0\<rparr> \<and>
   (\<exists>s1 s2.
      Push [''1'', ''2'', ''3'', ''4'']
        \<lparr>s_start = 0, s_end = 0, s_lines = ['''', '''', ''''], s_length = 0\<rparr> = Inr s1 \<and>
      Full s1 \<and> contents s1 = [''2'', ''3'', ''4''] \<and>
      Shifts 3 s1 = Inr ([''2'', ''3'', ''4''], s2) \<and> Empty s2 \<and>
      (\<forall>v'. Push [v', ''2'', ''3'', ''4'']
              \<lparr>s_start = 0, s_end = 0, s_lines = ['''', '''', ''''], s_length = 0\<rparr> = Inr s1))"
proof -
  let ?s = "\<lparr>s_start = 0, s_end = 0, s_lines = ['''', '''', ''''], s_length = 0\<rparr>"
  have "NewStRingBuffer 3 = Inr ?s" by code_simp
  then have r: "reachable ?s" by (rule reachable.new)
  have e: "Empty ?s" by (simp add: Empty_def)
  have c: "1 \<le> Capacity ?s" by (simp add: Capacity_def)
  have l: "int (length [''2'', ''3'', ''4'']) = Capacity ?s" by (simp add: Capacity_def)
  from Push_past_capacity_evicts_oldest[OF r e c l, of "''1''"] r e c l
  show ?thesis by (simp add: numeral_3_eq_3 del: Push.simps Shifts.simps)
qed

text \<open>
  C5: \<open>Map(f)\<close> on a buffer that a caller can hold, full or not, returns without a panic;
  it calls \<open>f\<close> on the live lines from the oldest to the newest, handing the closure's
  state from each call to the next, and the live lines afterwards are the results in
  the same order. The count and the capacity are unchanged. For a function without
  state the new lines are \<open>map g\<close> of the old ones.
\<close>

theorem Map_replaces_front_to_back:
  assumes "reachable s"
  shows "(\<exists>s'. Map f s c = Inr (s', snd (thread f (contents s) c)) \<and>
            contents s' = fst (thread f (contents s) c) \<and>
            Length s' = Length s \<and> Capacity s' = Capacity s) \<and>
         (\<exists>s'. Map (pure_fn g) s c = Inr (s', c) \<and> contents s' = map g (contents s) \<and>
            Length s' = Length s \<and> Capacity s' = Capacity s)"
proof -
  have w: "wf s" using assms by (rule reachable_wf)
  have n: "nat (s_length s) = length (contents s)"
    by (simp add: length_contents)
  have "\<exists>s'. Map h s c = Inr (s', snd (thread h (contents s) c)) \<and>
            contents s' = fst (thread h (contents s) c) \<and>
            Length s' = Length s \<and> Capacity s' = Capacity s" for h
    using Map_loop_thread[OF w, of "contents s" "[]" h c]
    by (auto simp: Map_def n Length_def)
  from this[of f] this[of "pure_fn g"] show ?thesis
    by (simp add: thread_pure_fn)
qed

theorem Map_replaces_front_to_back_witness:
  "reachable \<lparr>s_start = 0, s_end = 0, s_lines = [''c'', ''a'', ''b''], s_length = 3\<rparr> \<and>
   contents \<lparr>s_start = 0, s_end = 0, s_lines = [''c'', ''a'', ''b''], s_length = 3\<rparr>
     = [''a'', ''b'', ''c''] \<and>
   (\<exists>s'. Map (observing (\<lambda>x. x @ ''!''))
           \<lparr>s_start = 0, s_end = 0, s_lines = [''c'', ''a'', ''b''], s_length = 3\<rparr> []
         = Inr (s', [''a'', ''b'', ''c'']) \<and>
         contents s' = [''a!'', ''b!'', ''c!''] \<and> Length s' = 3 \<and> Capacity s' = 3)"
proof -
  let ?n = "\<lparr>s_start = 0, s_end = 0, s_lines = ['''', '''', ''''], s_length = 0\<rparr>"
  let ?s = "\<lparr>s_start = 0, s_end = 0, s_lines = [''c'', ''a'', ''b''], s_length = 3\<rparr>"
  have "NewStRingBuffer 3 = Inr ?n" by code_simp
  then have "reachable ?n" by (rule reachable.new)
  moreover have "Push [''a'', ''b'', ''c''] ?n = Inr ?s" by code_simp
  ultimately have r: "reachable ?s" by (rule reachable.push)
  have c: "contents ?s = [''a'', ''b'', ''c'']" by code_simp
  have t: "thread (observing (\<lambda>x. x @ ''!'')) [''a'', ''b'', ''c''] []
      = ([''a!'', ''b!'', ''c!''], [''a'', ''b'', ''c''])"
    by (simp add: observing_def)
  from Map_replaces_front_to_back[OF r, of "observing (\<lambda>x. x @ ''!'')" "[]"] r c t
  show ?thesis by (simp add: Length_def Capacity_def)
qed

text \<open>
  C10: the empty string that \<open>Pop\<close> and \<open>Shift\<close> return tells the caller nothing about
  the buffer. On a buffer that a caller can hold and that is not empty, \<open>Pop\<close> returns
  \<open>""\<close> when the newest line is \<open>""\<close>, and \<open>Shift\<close> returns \<open>""\<close> when the oldest line is
  \<open>""\<close>; both return \<open>""\<close> on an empty buffer. So there are two buffers that a caller
  can hold, one empty and one not, on which \<open>Pop\<close> returns the same value and \<open>Shift\<close>
  returns the same value.
\<close>

theorem empty_string_return_is_ambiguous:
  "(reachable s \<and> \<not> Empty s \<and> last (contents s) = '''' \<longrightarrow> returned (Pop s) = Inr '''') \<and>
   (reachable s \<and> \<not> Empty s \<and> hd (contents s) = '''' \<longrightarrow> returned (Shift s) = Inr '''') \<and>
   (Empty s \<longrightarrow> returned (Pop s) = Inr '''' \<and> returned (Shift s) = Inr '''') \<and>
   (\<exists>s1 s2. reachable s1 \<and> reachable s2 \<and> Empty s1 \<and> \<not> Empty s2 \<and>
      returned (Pop s1) = Inr '''' \<and> returned (Pop s2) = Inr '''' \<and>
      returned (Shift s1) = Inr '''' \<and> returned (Shift s2) = Inr '''')"
proof (intro conjI impI)
  assume a: "reachable s \<and> \<not> Empty s \<and> last (contents s) = ''''"
  then have "wf s" by (simp add: reachable_wf)
  from Pop_nonempty[OF this] a show "returned (Pop s) = Inr ''''"
    by (auto simp: returned_def)
next
  assume a: "reachable s \<and> \<not> Empty s \<and> hd (contents s) = ''''"
  then have "wf s" by (simp add: reachable_wf)
  from Shift_nonempty[OF this] a show "returned (Shift s) = Inr ''''"
    by (auto simp: returned_def)
next
  assume "Empty s"
  then show "returned (Pop s) = Inr ''''" by (simp add: Pop_Empty returned_def)
next
  assume "Empty s"
  then show "returned (Shift s) = Inr ''''" by (simp add: Shift_Empty returned_def)
next
  let ?s1 = "\<lparr>s_start = 0, s_end = 0, s_lines = [''''], s_length = 0\<rparr>"
  let ?s2 = "\<lparr>s_start = 0, s_end = 0, s_lines = [''''], s_length = 1\<rparr>"
  have "NewStRingBuffer 1 = Inr ?s1" by code_simp
  then have r1: "reachable ?s1" by (rule reachable.new)
  moreover have "Push [''''] ?s1 = Inr ?s2" by code_simp
  ultimately have r2: "reachable ?s2" by (rule reachable.push)
  have "Empty ?s1" "\<not> Empty ?s2" by (simp_all add: Empty_def)
  moreover have "returned (Pop ?s1) = Inr ''''" "returned (Pop ?s2) = Inr ''''"
    "returned (Shift ?s1) = Inr ''''" "returned (Shift ?s2) = Inr ''''"
    by code_simp+
  ultimately show "\<exists>s1 s2. reachable s1 \<and> reachable s2 \<and> Empty s1 \<and> \<not> Empty s2 \<and>
      returned (Pop s1) = Inr '''' \<and> returned (Pop s2) = Inr '''' \<and>
      returned (Shift s1) = Inr '''' \<and> returned (Shift s2) = Inr ''''"
    using r1 r2 by blast
qed

theorem empty_string_return_is_ambiguous_witness:
  "reachable \<lparr>s_start = 0, s_end = 2, s_lines = ['''', '''', ''x''], s_length = 2\<rparr> \<and>
   \<not> Empty \<lparr>s_start = 0, s_end = 2, s_lines = ['''', '''', ''x''], s_length = 2\<rparr> \<and>
   contents \<lparr>s_start = 0, s_end = 2, s_lines = ['''', '''', ''x''], s_length = 2\<rparr>
     = ['''', ''x''] \<and>
   returned (Shift \<lparr>s_start = 0, s_end = 2, s_lines = ['''', '''', ''x''], s_length = 2\<rparr>)
     = Inr ''''"
proof -
  let ?n = "\<lparr>s_start = 0, s_end = 0, s_lines = ['''', '''', ''''], s_length = 0\<rparr>"
  let ?s = "\<lparr>s_start = 0, s_end = 2, s_lines = ['''', '''', ''x''], s_length = 2\<rparr>"
  have "NewStRingBuffer 3 = Inr ?n" by code_simp
  then have "reachable ?n" by (rule reachable.new)
  moreover have "Push ['''', ''x''] ?n = Inr ?s" by code_simp
  ultimately have r: "reachable ?s" by (rule reachable.push)
  have e: "\<not> Empty ?s" by (simp add: Empty_def)
  have c: "contents ?s = ['''', ''x'']" by code_simp
  from empty_string_return_is_ambiguous[of ?s] r e c show ?thesis by simp
qed

text \<open>
  C2 does not hold of the code. A buffer of capacity 0 is full, so \<open>Push\<close> takes the
  branch that moves \<open>start\<close> and calls \<open>mod\<close>, which divides by the length of the slice:
  the first value pushed onto a new buffer of capacity 0 ends the call with the panic
  of an integer division by zero, and so does the first value of \<open>Unshift\<close>. Only a call
  without values returns the buffer.
\<close>

theorem Push_on_capacity_zero_panics:
  "NewStRingBuffer 0 = Inr \<lparr>s_start = 0, s_end = 0, s_lines = [], s_length = 0\<rparr> \<and>
   Push (v # vs) \<lparr>s_start = 0, s_end = 0, s_lines = [], s_length = 0\<rparr> = Inl DivideByZero \<and>
   Unshift (v # vs) \<lparr>s_start = 0, s_end = 0, s_lines = [], s_length = 0\<rparr> = Inl DivideByZero \<and>
   Push [] \<lparr>s_start = 0, s_end = 0, s_lines = [], s_length = 0\<rparr>
     = Inr \<lparr>s_start = 0, s_end = 0, s_lines = [], s_length = 0\<rparr>"
  by (simp add: NewStRingBuffer_def make_strings_def Push_step_def Unshift_step_def Full_def
      mod_srb_def go_rem_def)

section \<open>The methods of \<open>src/unnamed/part_002\<close> on well-formed buffers\<close>

lemma length_contents2: "length (contents2 s) = nat (s_length s)"
  by (simp add: contents2_def)

lemma contents2_Empty: "Empty s \<Longrightarrow> contents2 s = []"
  by (simp add: contents2_def Empty_def ring_list_def)

lemma Empty_iff_contents2: "wf s \<Longrightarrow> Empty s \<longleftrightarrow> contents2 s = []"
  by (auto simp: contents2_Empty) (auto simp: contents2_def ring_list_def Empty_def wf_def)

lemma Push2_step_grow_eq:
  assumes "wf s" "\<not> Full s"
  shows "Push2_step v s = Inr (s\<lparr>s_length := s_length s + 1,
            s_lines := (s_lines s)[nat (s_end s) := v],
            s_end := (s_end s + 1) mod Capacity s\<rparr>)"
  using assms wf_not_Full[OF assms] wf_pos[of s]
  by (auto simp add: Push2_step_def Let_def mod_srb_ok index_set_def Capacity_def)

lemma Push2_step_grow:
  assumes "wf s" "\<not> Full s"
  shows "\<exists>s'. Push2_step v s = Inr s' \<and> wf s' \<and> Capacity s' = Capacity s \<and>
           s_start s' = s_start s \<and> s_length s' = s_length s + 1 \<and>
           contents2 s' = contents2 s @ [v]"
proof -
  let ?ls = "s_lines s"
  let ?c = "int (length ?ls)"
  let ?ls' = "?ls[nat ((s_start s + s_length s) mod ?c) := v]"
  define s' where "s' = s\<lparr>s_length := s_length s + 1,
            s_lines := (s_lines s)[nat (s_end s) := v],
            s_end := (s_end s + 1) mod Capacity s\<rparr>"
  have cap: "Capacity s = ?c" by (simp add: Capacity_def)
  from assms have b: "0 < ?c" "0 \<le> s_length s" "s_length s < ?c" "0 \<le> s_start s" "s_start s < ?c"
    and e: "s_end s = (s_start s + s_length s) mod ?c"
    using wf_pos[of s] wf_not_Full[OF assms] by (simp_all add: cap)
  have n: "nat (s_length s + 1) = Suc (nat (s_length s))" using b by simp
  have 1: "Push2_step v s = Inr s'"
    unfolding s'_def using assms by (rule Push2_step_grow_eq)
  have 2: "Capacity s' = ?c" by (simp add: s'_def Capacity_def)
  have 3: "wf s'"
  proof -
    have "s_end s' = (s_start s' + s_length s') mod ?c"
      by (simp add: s'_def cap e mod_simps; simp add: algebra_simps)
    then show ?thesis using b by (simp add: wf_def 2) (simp add: s'_def cap)
  qed
  have "contents2 s' = ring_list ?ls' (s_start s) (Suc (nat (s_length s)))"
    by (simp add: contents2_def s'_def n e)
  also have "\<dots> = ring_list ?ls' (s_start s) (nat (s_length s)) @ [v]"
    using b by (simp add: ring_list_snoc slot_in_range)
  also have "ring_list ?ls' (s_start s) (nat (s_length s))
      = ring_list ?ls (s_start s) (nat (s_length s))"
    using b by (intro ring_list_update_outside[where d="s_length s"]) simp_all
  finally have 4: "contents2 s' = contents2 s @ [v]" by (simp add: contents2_def)
  show ?thesis using 1 2 3 4 by (auto simp: s'_def cap)
qed

lemma Push2_step_full_eq:
  assumes "wf s" "Full s" "0 < Capacity s"
  shows "Push2_step v s = Inr (s\<lparr>s_start := (s_start s + 1) mod Capacity s,
            s_lines := (s_lines s)[nat (s_end s) := v],
            s_end := (s_end s + 1) mod Capacity s\<rparr>)"
  using assms wf_pos[of s]
  by (auto simp add: Push2_step_def Let_def mod_srb_ok index_set_def Capacity_def)

lemma Push2_step_full:
  assumes "wf s" "Full s" "0 < Capacity s"
  shows "\<exists>s'. Push2_step v s = Inr s' \<and> wf s' \<and> Capacity s' = Capacity s \<and>
           s_start s' = (s_start s + 1) mod Capacity s \<and> s_length s' = s_length s \<and>
           contents2 s' = tl (contents2 s) @ [v]"
proof -
  let ?ls = "s_lines s"
  let ?c = "int (length ?ls)"
  let ?ls' = "?ls[nat ((s_start s + s_length s) mod ?c) := v]"
  define s' where "s' = s\<lparr>s_start := (s_start s + 1) mod Capacity s,
            s_lines := (s_lines s)[nat (s_end s) := v],
            s_end := (s_end s + 1) mod Capacity s\<rparr>"
  have cap: "Capacity s = ?c" by (simp add: Capacity_def)
  from assms have b: "0 < ?c" "s_length s = ?c" "0 \<le> s_start s" "s_start s < ?c"
    and e: "s_end s = (s_start s + s_length s) mod ?c"
    using wf_pos[of s] wf_Full[of s] by (simp_all add: cap)
  obtain m where m: "length ?ls = Suc m" using b(1) by (cases ?ls) auto
  have n: "nat (s_length s) = Suc m" using b m by simp
  have 1: "Push2_step v s = Inr s'"
    unfolding s'_def using assms by (rule Push2_step_full_eq)
  have 2: "Capacity s' = ?c" by (simp add: s'_def Capacity_def)
  have 3: "wf s'"
  proof -
    have "s_end s' = (s_start s' + s_length s') mod ?c"
      by (simp add: s'_def cap e mod_simps; simp add: algebra_simps)
    then show ?thesis using b by (simp add: wf_def 2) (simp add: s'_def cap)
  qed
  have x: "(s_start s + s_length s) mod ?c = (s_start s + 1 + int m) mod ?c"
    using b(2) m by (simp add: ac_simps)
  have cs: "contents2 s = ?ls ! nat (s_start s mod ?c) # ring_list ?ls (s_start s + 1) m"
    by (simp add: contents2_def n ring_list_cons)
  have "contents2 s' = ring_list ?ls' ((s_start s + 1) mod ?c) (Suc m)"
    by (simp add: contents2_def s'_def cap n e)
  also have "\<dots> = ring_list ?ls' (s_start s + 1) (Suc m)"
    by (rule ring_list_cong_start) (simp add: mod_simps)
  also have "\<dots> = ring_list ?ls' (s_start s + 1) m @ [v]"
    using b(1) by (simp add: ring_list_snoc x slot_in_range)
  also have "ring_list ?ls' (s_start s + 1) m = ring_list ?ls (s_start s + 1) m"
    by (rule ring_list_update_outside[where d="int m"]) (use m x in simp_all)
  finally have 4: "contents2 s' = tl (contents2 s) @ [v]" by (simp add: cs)
  show ?thesis using 1 2 3 4 b by (auto simp: s'_def cap)
qed

lemma Pop2_nonempty_eq:
  assumes "wf s" "\<not> Empty s"
  shows "Pop2 s = Inr (s_lines s ! nat ((s_end s - 1) mod Capacity s),
           s\<lparr>s_length := s_length s - 1,
             s_end := (s_end s - 1) mod Capacity s,
             s_lines := (s_lines s)[nat ((s_end s - 1) mod Capacity s) := '''']\<rparr>)"
  using assms wf_not_Empty[OF assms] wf_pos[of s]
  by (auto simp add: Pop2_def Let_def mod_srb_ok index_set_def index_get_def Capacity_def)

lemma Pop2_nonempty:
  assumes "wf s" "\<not> Empty s"
  shows "\<exists>s'. Pop2 s = Inr (last (contents2 s), s') \<and> wf s' \<and> Capacity s' = Capacity s \<and>
           s_start s' = s_start s \<and> s_length s' = s_length s - 1 \<and>
           contents2 s' = butlast (contents2 s)"
proof -
  let ?ls = "s_lines s"
  let ?c = "int (length ?ls)"
  let ?ls' = "?ls[nat ((s_end s - 1) mod ?c) := '''']"
  define s' where "s' = s\<lparr>s_length := s_length s - 1,
             s_end := (s_end s - 1) mod Capacity s,
             s_lines := (s_lines s)[nat ((s_end s - 1) mod Capacity s) := '''']\<rparr>"
  have cap: "Capacity s = ?c" by (simp add: Capacity_def)
  from assms have b: "0 < ?c" "0 < s_length s" "s_length s \<le> ?c" "0 \<le> s_start s" "s_start s < ?c"
    and e: "s_end s = (s_start s + s_length s) mod ?c"
    using wf_pos[of s] wf_not_Empty[OF assms] by (simp_all add: cap)
  obtain m where n: "nat (s_length s) = Suc m" using b(2) by (cases "nat (s_length s)") auto
  then have m: "s_length s = int m + 1" by linarith
  have x: "(s_end s - 1) mod ?c = (s_start s + int m) mod ?c"
    by (simp add: e m mod_simps)
  have 1: "Pop2 s = Inr (?ls ! nat ((s_end s - 1) mod ?c), s')"
    unfolding s'_def cap[symmetric] using assms by (rule Pop2_nonempty_eq)
  have 2: "Capacity s' = ?c" by (simp add: s'_def Capacity_def)
  have 3: "wf s'"
  proof -
    have "s_end s' = (s_start s' + s_length s') mod ?c"
      by (simp add: s'_def cap e mod_simps; simp add: algebra_simps)
    then show ?thesis using b by (simp add: wf_def 2) (simp add: s'_def cap)
  qed
  have cs: "contents2 s = ring_list ?ls (s_start s) m @ [?ls ! nat ((s_end s - 1) mod ?c)]"
    unfolding contents2_def n ring_list_snoc x by simp
  have "contents2 s' = ring_list ?ls' (s_start s) m"
    using n by (simp add: contents2_def s'_def cap m)
  also have "\<dots> = ring_list ?ls (s_start s) m"
    using b(3) by (intro ring_list_update_outside[where d="int m"]) (simp_all add: m x)
  finally have 4: "contents2 s' = butlast (contents2 s)" by (simp add: cs)
  show ?thesis using 1 2 3 4 by (auto simp: s'_def cap cs)
qed

lemma Shift2_nonempty_eq:
  assumes "wf s" "\<not> Empty s"
  shows "Shift2 s = Inr (s_lines s ! nat (s_start s),
           s\<lparr>s_length := s_length s - 1,
             s_lines := (s_lines s)[nat (s_start s) := ''''],
             s_start := (s_start s + 1) mod Capacity s\<rparr>)"
  using assms wf_not_Empty[OF assms] wf_pos[of s]
  by (auto simp add: Shift2_def Let_def mod_srb_ok index_set_def index_get_def Capacity_def)

lemma Shift2_nonempty:
  assumes "wf s" "\<not> Empty s"
  shows "\<exists>s'. Shift2 s = Inr (hd (contents2 s), s') \<and> wf s' \<and> Capacity s' = Capacity s \<and>
           s_start s' = (s_start s + 1) mod Capacity s \<and> s_length s' = s_length s - 1 \<and>
           contents2 s' = tl (contents2 s)"
proof -
  let ?ls = "s_lines s"
  let ?c = "int (length ?ls)"
  let ?ls' = "?ls[nat (s_start s mod ?c) := '''']"
  define s' where "s' = s\<lparr>s_length := s_length s - 1,
             s_lines := (s_lines s)[nat (s_start s) := ''''],
             s_start := (s_start s + 1) mod Capacity s\<rparr>"
  have cap: "Capacity s = ?c" by (simp add: Capacity_def)
  from assms have b: "0 < ?c" "0 < s_length s" "s_length s \<le> ?c" "0 \<le> s_start s" "s_start s < ?c"
    and e: "s_end s = (s_start s + s_length s) mod ?c"
    using wf_pos[of s] wf_not_Empty[OF assms] by (simp_all add: cap)
  obtain m where n: "nat (s_length s) = Suc m" using b(2) by (cases "nat (s_length s)") auto
  then have m: "s_length s = int m + 1" by linarith
  have st: "s_start s mod ?c = s_start s" using b by simp
  have 1: "Shift2 s = Inr (?ls ! nat (s_start s), s')"
    unfolding s'_def using assms by (rule Shift2_nonempty_eq)
  have 2: "Capacity s' = ?c" by (simp add: s'_def Capacity_def)
  have 3: "wf s'"
  proof -
    have "s_end s' = (s_start s' + s_length s') mod ?c"
      by (simp add: s'_def cap e mod_simps; simp add: algebra_simps)
    then show ?thesis using b by (simp add: wf_def 2) (simp add: s'_def cap)
  qed
  have cs: "contents2 s = ?ls ! nat (s_start s) # ring_list ?ls (s_start s + 1) m"
    by (simp add: contents2_def n ring_list_cons st)
  have "contents2 s' = ring_list ?ls' ((s_start s + 1) mod ?c) m"
    using n by (simp add: contents2_def s'_def cap m st)
  also have "\<dots> = ring_list ?ls' (s_start s + 1) m"
    by (rule ring_list_cong_start) (simp add: mod_simps)
  also have "\<dots> = ring_list ?ls (s_start s + 1) m"
  proof (rule ring_list_update_outside[where d="?c - 1"])
    show "int m \<le> ?c - 1" using b(3) m by simp
    show "?c - 1 < ?c" by simp
    have "s_start s + 1 + (?c - 1) = s_start s + ?c" by simp
    then show "s_start s mod ?c = (s_start s + 1 + (?c - 1)) mod ?c"
      by (simp only: mod_add_self2)
  qed
  finally have 4: "contents2 s' = tl (contents2 s)" by (simp add: cs)
  show ?thesis using 1 2 3 4 by (auto simp: s'_def cap cs)
qed

lemma Unshift2_step_grow_eq:
  assumes "wf s" "\<not> Full s"
  shows "Unshift2_step v s = Inr (s\<lparr>s_length := s_length s + 1,
            s_start := (s_start s - 1) mod Capacity s,
            s_lines := (s_lines s)[nat ((s_start s - 1) mod Capacity s) := v]\<rparr>)"
  using assms wf_not_Full[OF assms] wf_pos[of s]
  by (auto simp add: Unshift2_step_def Let_def mod_srb_ok index_set_def Capacity_def)

lemma Unshift2_step_grow:
  assumes "wf s" "\<not> Full s"
  shows "\<exists>s'. Unshift2_step v s = Inr s' \<and> wf s' \<and> Capacity s' = Capacity s \<and>
           s_length s' = s_length s + 1 \<and> contents2 s' = v # contents2 s"
proof -
  let ?ls = "s_lines s"
  let ?c = "int (length ?ls)"
  let ?ls' = "?ls[nat ((s_start s - 1) mod ?c) := v]"
  define s' where "s' = s\<lparr>s_length := s_length s + 1,
            s_start := (s_start s - 1) mod Capacity s,
            s_lines := (s_lines s)[nat ((s_start s - 1) mod Capacity s) := v]\<rparr>"
  have cap: "Capacity s = ?c" by (simp add: Capacity_def)
  from assms have b: "0 < ?c" "0 \<le> s_length s" "s_length s < ?c" "0 \<le> s_start s" "s_start s < ?c"
    and e: "s_end s = (s_start s + s_length s) mod ?c"
    using wf_pos[of s] wf_not_Full[OF assms] by (simp_all add: cap)
  have n: "nat (s_length s + 1) = Suc (nat (s_length s))" using b by simp
  have 1: "Unshift2_step v s = Inr s'"
    unfolding s'_def using assms by (rule Unshift2_step_grow_eq)
  have 2: "Capacity s' = ?c" by (simp add: s'_def Capacity_def)
  have 3: "wf s'"
  proof -
    have "s_end s' = (s_start s' + s_length s') mod ?c"
      by (simp add: s'_def cap e mod_simps; simp add: algebra_simps)
    then show ?thesis using b by (simp add: wf_def 2) (simp add: s'_def cap)
  qed
  have "contents2 s' = ring_list ?ls' ((s_start s - 1) mod ?c) (Suc (nat (s_length s)))"
    by (simp add: contents2_def s'_def cap n)
  also have "\<dots> = ring_list ?ls' (s_start s - 1) (Suc (nat (s_length s)))"
    by (rule ring_list_cong_start) (simp add: mod_simps)
  also have "\<dots> = v # ring_list ?ls' (s_start s) (nat (s_length s))"
    using b(1) by (simp add: ring_list_cons slot_in_range)
  also have "ring_list ?ls' (s_start s) (nat (s_length s))
      = ring_list ?ls (s_start s) (nat (s_length s))"
  proof (rule ring_list_update_outside[where d="?c - 1"])
    show "int (nat (s_length s)) \<le> ?c - 1" using b by simp
    show "?c - 1 < ?c" by simp
    have "s_start s + (?c - 1) = s_start s - 1 + ?c" by simp
    then show "(s_start s - 1) mod ?c = (s_start s + (?c - 1)) mod ?c"
      by (simp only: mod_add_self2)
  qed
  finally have 4: "contents2 s' = v # contents2 s" by (simp add: contents2_def)
  show ?thesis using 1 2 3 4 by (auto simp: s'_def cap)
qed

lemma Unshift2_step_full_eq:
  assumes "wf s" "Full s" "0 < Capacity s"
  shows "Unshift2_step v s = Inr (s\<lparr>s_end := (s_end s - 1) mod Capacity s,
            s_start := (s_start s - 1) mod Capacity s,
            s_lines := (s_lines s)[nat ((s_start s - 1) mod Capacity s) := v]\<rparr>)"
  using assms wf_pos[of s]
  by (auto simp add: Unshift2_step_def Let_def mod_srb_ok index_set_def Capacity_def)

lemma Unshift2_step_full:
  assumes "wf s" "Full s" "0 < Capacity s"
  shows "\<exists>s'. Unshift2_step v s = Inr s' \<and> wf s' \<and> Capacity s' = Capacity s \<and>
           s_length s' = s_length s \<and> contents2 s' = v # butlast (contents2 s)"
proof -
  let ?ls = "s_lines s"
  let ?c = "int (length ?ls)"
  let ?ls' = "?ls[nat ((s_start s - 1) mod ?c) := v]"
  define s' where "s' = s\<lparr>s_end := (s_end s - 1) mod Capacity s,
            s_start := (s_start s - 1) mod Capacity s,
            s_lines := (s_lines s)[nat ((s_start s - 1) mod Capacity s) := v]\<rparr>"
  have cap: "Capacity s = ?c" by (simp add: Capacity_def)
  from assms have b: "0 < ?c" "s_length s = ?c" "0 \<le> s_start s" "s_start s < ?c"
    and e: "s_end s = (s_start s + s_length s) mod ?c"
    using wf_pos[of s] wf_Full[of s] by (simp_all add: cap)
  obtain m where m: "length ?ls = Suc m" using b(1) by (cases ?ls) auto
  have n: "nat (s_length s) = Suc m" using b m by simp
  have 1: "Unshift2_step v s = Inr s'"
    unfolding s'_def using assms by (rule Unshift2_step_full_eq)
  have 2: "Capacity s' = ?c" by (simp add: s'_def Capacity_def)
  have 3: "wf s'"
  proof -
    have "s_end s' = (s_start s' + s_length s') mod ?c"
      by (simp add: s'_def cap e mod_simps; simp add: algebra_simps)
    then show ?thesis using b by (simp add: wf_def 2) (simp add: s'_def cap)
  qed
  have cs: "butlast (contents2 s) = ring_list ?ls (s_start s) m"
    unfolding contents2_def n ring_list_snoc by simp
  have "contents2 s' = ring_list ?ls' ((s_start s - 1) mod ?c) (Suc m)"
    by (simp add: contents2_def s'_def cap n)
  also have "\<dots> = ring_list ?ls' (s_start s - 1) (Suc m)"
    by (rule ring_list_cong_start) (simp add: mod_simps)
  also have "\<dots> = v # ring_list ?ls' (s_start s) m"
    using b(1) by (simp add: ring_list_cons slot_in_range)
  also have "ring_list ?ls' (s_start s) m = ring_list ?ls (s_start s) m"
  proof (rule ring_list_update_outside[where d="?c - 1"])
    show "int m \<le> ?c - 1" using m by simp
    show "?c - 1 < ?c" by simp
    have "s_start s + (?c - 1) = s_start s - 1 + ?c" by simp
    then show "(s_start s - 1) mod ?c = (s_start s + (?c - 1)) mod ?c"
      by (simp only: mod_add_self2)
  qed
  finally have 4: "contents2 s' = v # butlast (contents2 s)" by (simp add: cs)
  show ?thesis using 1 2 3 4 b by (auto simp: s'_def cap)
qed

lemma Push2_step_Capacity0: "Capacity s = 0 \<Longrightarrow> \<exists>e. Push2_step v s = Inl e"
  by (simp add: Push2_step_def mod_srb_def go_rem_zero Capacity_def index_set_def)

lemma Unshift2_step_Capacity0: "Capacity s = 0 \<Longrightarrow> Unshift2_step v s = Inl DivideByZero"
  by (simp add: Unshift2_step_def mod_srb_def go_rem_zero Capacity_def)

lemma Push2_step_wf:
  assumes "wf s" "Push2_step v s = Inr s'"
  shows "wf s' \<and> Capacity s' = Capacity s"
proof (cases "Full s")
  case False
  with assms Push2_step_grow[of s v] show ?thesis by auto
next
  case True
  have "Capacity s \<noteq> 0" using assms(2) Push2_step_Capacity0[of s v] by auto
  then have "0 < Capacity s" by (simp add: Capacity_def)
  with True assms Push2_step_full[of s v] show ?thesis by auto
qed

lemma Unshift2_step_wf:
  assumes "wf s" "Unshift2_step v s = Inr s'"
  shows "wf s' \<and> Capacity s' = Capacity s"
proof (cases "Full s")
  case False
  with assms Unshift2_step_grow[of s v] show ?thesis by auto
next
  case True
  have "Capacity s \<noteq> 0" using assms(2) Unshift2_step_Capacity0[of s v] by auto
  then have "0 < Capacity s" by (simp add: Capacity_def)
  with True assms Unshift2_step_full[of s v] show ?thesis by auto
qed

lemma Push2_wf: "wf s \<Longrightarrow> Push2 vs s = Inr s' \<Longrightarrow> wf s' \<and> Capacity s' = Capacity s"
proof (induction vs arbitrary: s)
  case Nil
  then show ?case by simp
next
  case (Cons v vs)
  from Cons.prems(2) obtain s1 where s1: "Push2_step v s = Inr s1" "Push2 vs s1 = Inr s'"
    by (cases "Push2_step v s") auto
  from Push2_step_wf[OF Cons.prems(1) s1(1)] Cons.IH[OF _ s1(2)] show ?case by simp
qed

lemma Unshift2_wf: "wf s \<Longrightarrow> Unshift2 vs s = Inr s' \<Longrightarrow> wf s' \<and> Capacity s' = Capacity s"
proof (induction vs arbitrary: s)
  case Nil
  then show ?case by simp
next
  case (Cons v vs)
  from Cons.prems(2) obtain s1 where s1: "Unshift2_step v s = Inr s1" "Unshift2 vs s1 = Inr s'"
    by (cases "Unshift2_step v s") auto
  from Unshift2_step_wf[OF Cons.prems(1) s1(1)] Cons.IH[OF _ s1(2)] show ?case by simp
qed

lemma Pop2_Empty: "Empty s \<Longrightarrow> Pop2 s = Inr ('''', s)"
  by (simp add: Pop2_def)

lemma Shift2_Empty: "Empty s \<Longrightarrow> Shift2 s = Inr ('''', s)"
  by (simp add: Shift2_def)

lemma Pop2_wf: "wf s \<Longrightarrow> Pop2 s = Inr (x, s') \<Longrightarrow> wf s' \<and> Capacity s' = Capacity s"
  using Pop2_nonempty[of s] Pop2_Empty[of s] by (cases "Empty s") auto

lemma Shift2_wf: "wf s \<Longrightarrow> Shift2 s = Inr (x, s') \<Longrightarrow> wf s' \<and> Capacity s' = Capacity s"
  using Shift2_nonempty[of s] Shift2_Empty[of s] by (cases "Empty s") auto

lemma Unslice_Nil: "Unslice [] = Inl DivideByZero"
  by (simp add: Unslice_def mod_srb_def go_rem_zero)

lemma Unslice_nonempty_eq:
  "vs \<noteq> [] \<Longrightarrow>
     Unslice vs = Inr \<lparr>s_start = 0, s_end = 0, s_lines = vs, s_length = int (length vs)\<rparr>"
  by (simp add: Unslice_def mod_srb_ok Capacity_def)

lemma Unslice_wf:
  assumes "Unslice vs = Inr s"
  shows "wf s \<and> Full s \<and> Capacity s = int (length vs) \<and> contents2 s = vs"
proof -
  have ne: "vs \<noteq> []" using assms Unslice_Nil by auto
  with assms have s: "s = \<lparr>s_start = 0, s_end = 0, s_lines = vs, s_length = int (length vs)\<rparr>"
    by (simp add: Unslice_nonempty_eq)
  have "ring_list vs 0 (length vs) = vs"
    by (rule nth_equalityI) (simp_all add: nth_ring_list)
  then show ?thesis using ne by (simp add: s wf_def Full_def Capacity_def contents2_def)
qed

lemma reachable2_wf: "reachable2 s \<Longrightarrow> wf s"
proof (induction rule: reachable2.induct)
  case (new2 sz s)
  then show ?case by (simp add: NewStRingBuffer_wf)
next
  case (unslice2 vs s)
  then show ?case by (simp add: Unslice_wf)
next
  case (push2 s vs s')
  then show ?case by (simp add: Push2_wf)
next
  case (pop2 s x s')
  then show ?case using Pop2_wf by blast
next
  case (unshift2 s vs s')
  then show ?case by (simp add: Unshift2_wf)
next
  case (shift2 s x s')
  then show ?case using Shift2_wf by blast
qed

lemma ring_list_append:
  "ring_list ls st (a + b) = ring_list ls st a @ ring_list ls (st + int a) b"
proof (induction b)
  case 0
  show ?case by (simp add: ring_list_def)
next
  case (Suc b)
  have "ring_list ls st (a + Suc b)
      = ring_list ls st (a + b) @ [ls ! nat ((st + int (a + b)) mod int (length ls))]"
    by (simp add: ring_list_snoc)
  also have "\<dots> = ring_list ls st a @
      (ring_list ls (st + int a) b @ [ls ! nat ((st + int a + int b) mod int (length ls))])"
    unfolding Suc.IH by (simp add: add.assoc)
  also have "\<dots> = ring_list ls st a @ ring_list ls (st + int a) (Suc b)"
    by (simp add: ring_list_snoc)
  finally show ?case .
qed

lemma ring_list_nowrap:
  assumes "0 \<le> st" "nat st + n \<le> length ls"
  shows "ring_list ls st n = take n (drop (nat st) ls)"
proof (rule nth_equalityI)
  show "length (ring_list ls st n) = length (take n (drop (nat st) ls))"
    using assms by simp
next
  fix k
  assume "k < length (ring_list ls st n)"
  then have k: "k < n" by simp
  with assms have "st + int k < int (length ls)" by linarith
  with assms(1) have "nat ((st + int k) mod int (length ls)) = nat st + k"
    by (simp add: nat_add_distrib)
  with k assms show "ring_list ls st n ! k = take n (drop (nat st) ls) ! k"
    by (simp add: nth_ring_list)
qed

lemma ring_list_wrap:
  assumes "0 \<le> st" "nat st \<le> length ls" "length ls \<le> nat st + n" "n \<le> length ls"
  shows "ring_list ls st n = drop (nat st) ls @ take (nat st + n - length ls) ls"
proof -
  define a where "a = length ls - nat st"
  define b where "b = nat st + n - length ls"
  have n: "n = a + b" using assms by (simp add: a_def b_def)
  have sa: "st + int a = int (length ls)" using assms by (simp add: a_def)
  have "ring_list ls st a = take a (drop (nat st) ls)"
    using assms by (intro ring_list_nowrap) (simp_all add: a_def)
  then have 1: "ring_list ls st a = drop (nat st) ls" by (simp add: a_def)
  have "ring_list ls (int (length ls)) b = ring_list ls 0 b"
    by (rule ring_list_cong_start) simp
  also have "\<dots> = take b (drop (nat 0) ls)"
    using assms by (intro ring_list_nowrap) (simp_all add: b_def)
  finally have 2: "ring_list ls (st + int a) b = take b ls" by (simp add: sa)
  have "ring_list ls st n = ring_list ls st (a + b)" by (simp only: n)
  also have "\<dots> = drop (nat st) ls @ take b ls" by (simp only: ring_list_append 1 2)
  finally show ?thesis by (simp only: b_def)
qed

lemma wf_start_lt_end:
  assumes "wf s" "s_start s < s_end s"
  shows "s_end s = s_start s + s_length s"
proof -
  let ?c = "Capacity s"
  from assms have c: "0 < ?c" by (auto simp: wf_def split: if_splits)
  from wf_pos[OF assms(1) c] have b: "0 \<le> s_length s" "s_length s \<le> ?c" "0 \<le> s_start s"
    "s_start s < ?c" "s_end s = (s_start s + s_length s) mod ?c"
    by simp_all
  show ?thesis
  proof (cases "s_start s + s_length s < ?c")
    case True
    moreover have "0 \<le> s_start s + s_length s" using b by simp
    ultimately have "(s_start s + s_length s) mod ?c = s_start s + s_length s" by simp
    with b show ?thesis by simp
  next
    case False
    then have "?c \<le> s_start s + s_length s" by simp
    moreover have "s_start s + s_length s - ?c < ?c" using b by linarith
    ultimately have "(s_start s + s_length s - ?c) mod ?c = s_start s + s_length s - ?c"
      by (intro mod_pos_pos_trivial) linarith+
    then have "(s_start s + s_length s) mod ?c = s_start s + s_length s - ?c"
      by simp
    with b assms(2) show ?thesis by linarith
  qed
qed

lemma wf_start_ge_end:
  assumes "wf s" "\<not> s_start s < s_end s" "\<not> Empty s"
  shows "s_end s = s_start s + s_length s - Capacity s \<and> 0 \<le> s_end s"
proof -
  let ?c = "Capacity s"
  from wf_not_Empty[OF assms(1,3)] have c: "0 < ?c" "0 < s_length s" by simp_all
  from wf_pos[OF assms(1) c(1)] have b: "s_length s \<le> ?c" "0 \<le> s_start s"
    "s_start s < ?c" "s_end s = (s_start s + s_length s) mod ?c" "0 \<le> s_end s"
    by simp_all
  have "\<not> s_start s + s_length s < ?c"
  proof
    assume "s_start s + s_length s < ?c"
    moreover have "0 \<le> s_start s + s_length s" using b c by simp
    ultimately have "(s_start s + s_length s) mod ?c = s_start s + s_length s" by simp
    with b have "s_end s = s_start s + s_length s" by simp
    with c assms(2) show False by simp
  qed
  then have "?c \<le> s_start s + s_length s" by simp
  moreover have "s_start s + s_length s - ?c < ?c" using b by linarith
  ultimately have "(s_start s + s_length s - ?c) mod ?c = s_start s + s_length s - ?c"
    by (intro mod_pos_pos_trivial) linarith+
  then have "(s_start s + s_length s) mod ?c = s_start s + s_length s - ?c"
    by simp
  with b show ?thesis by simp
qed

lemma Slice_wf:
  assumes "wf s"
  shows "Slice s = Inr (contents2 s, s)"
proof (cases "Empty s")
  case True
  then show ?thesis
    by (simp add: Slice_def make_strings_def Length_def Empty_def contents2_Empty)
next
  case False
  let ?ls = "s_lines s"
  let ?n = "nat (s_length s)"
  let ?st = "nat (s_start s)"
  let ?e = "nat (s_end s)"
  from wf_not_Empty[OF assms False] have c: "0 < Capacity s" "0 < s_length s" by simp_all
  from wf_pos[OF assms c(1)] have b: "s_length s \<le> int (length ?ls)" "0 \<le> s_start s"
    "s_start s < int (length ?ls)" "0 \<le> s_end s" "s_end s < int (length ?ls)"
    by (simp_all add: Capacity_def)
  have mk: "make_strings (Length s) = Inr (replicate ?n '''')"
    using c by (simp add: make_strings_def Length_def)
  show ?thesis
  proof (cases "s_start s < s_end s")
    case True
    from wf_start_lt_end[OF assms True] have e: "s_end s = s_start s + s_length s" .
    have src: "slice_of ?ls (s_start s) (s_end s + 1) = Inr (take (Suc ?n) (drop ?st ?ls))"
      using b c e by (simp add: slice_of_def nat_add_distrib)
    have len: "?st + ?n \<le> length ?ls" using b c e by linarith
    then have nle: "?n \<le> length ?ls - ?st" by simp
    have "copy_go (replicate ?n '''') (take (Suc ?n) (drop ?st ?ls)) = take ?n (drop ?st ?ls)"
      using nle by (simp add: copy_go_def min_def)
    moreover have "contents2 s = take ?n (drop ?st ?ls)"
      unfolding contents2_def using b len by (intro ring_list_nowrap) simp_all
    ultimately show ?thesis
      using False True by (simp add: Slice_def mk src Let_def)
  next
    case ge: False
    from wf_start_ge_end[OF assms ge False]
    have e: "s_end s = s_start s + s_length s - int (length ?ls)"
      by (simp add: Capacity_def)
    define a where "a = length ?ls - ?st"
    have en: "?e = ?st + ?n - length ?ls" using b c e by linarith
    have an: "a \<le> ?n" "?n - a = ?e" unfolding a_def using b c e by linarith+
    have p1: "slice_of ?ls (s_start s) (int (length ?ls)) = Inr (drop ?st ?ls)"
      using b by (simp add: slice_of_def)
    have p2: "slice_of ?ls 0 (s_end s) = Inr (take ?e ?ls)"
      using b by (simp add: slice_of_def)
    have l1: "length (drop ?st ?ls) = a" by (simp add: a_def)
    have s1: "copy_go (replicate ?n '''') (drop ?st ?ls) = drop ?st ?ls @ replicate ?e ''''"
      using an by (simp add: copy_go_def l1 min_def del: length_drop)
    have rest: "slice_of (drop ?st ?ls @ replicate ?e '''') (int a) (int a + s_end s)
        = Inr (replicate ?e '''')"
    proof -
      have "drop a (drop ?st ?ls @ replicate ?e '''') = replicate ?e ''''"
        by (simp add: a_def)
      then show ?thesis
        using b(4) by (simp add: slice_of_def l1 del: length_drop drop_append)
    qed
    have l2: "length (take ?e ?ls) = ?e" using b by simp
    have cp: "copy_go (replicate ?e '''') (take ?e ?ls) = take ?e ?ls"
      by (simp add: copy_go_def l2 del: length_take)
    have "contents2 s = drop ?st ?ls @ take (?st + ?n - length ?ls) ?ls"
      unfolding contents2_def
    proof (rule ring_list_wrap)
      show "0 \<le> s_start s" using b by simp
      show "?st \<le> length ?ls" using b by linarith
      show "length ?ls \<le> ?st + ?n" using b c e by linarith
      show "?n \<le> length ?ls" using b by linarith
    qed
    then have cs: "contents2 s = drop ?st ?ls @ take ?e ?ls" by (simp only: en)
    have tk: "take a (drop ?st ?ls @ replicate ?e '''') = drop ?st ?ls"
      by (simp add: l1 del: length_drop)
    show ?thesis
      using False ge b(4)
      by (simp add: Slice_def mk p1 p2 s1 l1 rest cp cs tk Let_def del: length_drop)
  qed
qed

lemma Push2_single: "Push2 [v] s = Push2_step v s"
  by (cases "Push2_step v s") simp_all

lemma Unshift2_single: "Unshift2 [v] s = Unshift2_step v s"
  by (cases "Unshift2_step v s") simp_all

lemma Shifts2_all:
  assumes "wf s" "n = nat (s_length s)"
  shows "\<exists>s'. Shifts2 n s = Inr (contents2 s, s') \<and> wf s' \<and> Empty s' \<and>
           Capacity s' = Capacity s"
  using assms
proof (induction n arbitrary: s)
  case 0
  then have "Empty s" by (simp add: Empty_def wf_def)
  with 0 show ?case by (simp add: contents2_Empty)
next
  case (Suc n)
  then have ne: "\<not> Empty s" by (auto simp: Empty_def)
  from Shift2_nonempty[OF Suc.prems(1) ne] obtain s1 where
    s1: "Shift2 s = Inr (hd (contents2 s), s1)" "wf s1" "Capacity s1 = Capacity s"
      "s_length s1 = s_length s - 1" "contents2 s1 = tl (contents2 s)"
    by blast
  from Suc.prems(2) s1(4) have "n = nat (s_length s1)" by simp
  from Suc.IH[OF s1(2) this] obtain s' where
    s': "Shifts2 n s1 = Inr (contents2 s1, s')" "wf s'" "Empty s'" "Capacity s' = Capacity s1"
    by blast
  have "contents2 s \<noteq> []" using ne Suc.prems(1) by (simp add: Empty_iff_contents2)
  then have "hd (contents2 s) # tl (contents2 s) = contents2 s" by simp
  with s1 s' show ?case by simp
qed

lemma Map2_loop_thread:
  assumes "wf s" "contents2 s = xs @ zs"
  shows "\<exists>s'. Map2_loop (length xs) f s c = Inr (s', snd (thread f xs c)) \<and> wf s' \<and>
           Capacity s' = Capacity s \<and> s_length s' = s_length s \<and>
           contents2 s' = zs @ fst (thread f xs c)"
  using assms
proof (induction xs arbitrary: s c zs)
  case Nil
  then show ?case by simp
next
  case (Cons x xs)
  obtain y c1 where f: "f x c = (y, c1)" by (cases "f x c")
  obtain ys c2 where t: "thread f xs c1 = (ys, c2)" by (cases "thread f xs c1")
  from Cons.prems have ne: "\<not> Empty s" by (simp add: Empty_iff_contents2)
  from Shift2_nonempty[OF Cons.prems(1) ne] Cons.prems(2) obtain s1 where
    s1: "Shift2 s = Inr (x, s1)" "wf s1" "Capacity s1 = Capacity s"
      "s_length s1 = s_length s - 1" "contents2 s1 = xs @ zs"
    by auto
  from Cons.prems(1) s1 have "\<not> Full s1" by (auto simp: Full_def wf_def Capacity_def)
  from Push2_step_grow[OF s1(2) this, of y] s1 obtain s2 where
    s2: "Push2 [y] s1 = Inr s2" "wf s2" "Capacity s2 = Capacity s"
      "s_length s2 = s_length s" "contents2 s2 = xs @ (zs @ [y])"
    by (auto simp: Push2_single simp del: Push2.simps)
  from Cons.IH[OF s2(2) s2(5), of c1] t obtain s' where
    s': "Map2_loop (length xs) f s2 c1 = Inr (s', c2)" "wf s'" "Capacity s' = Capacity s2"
      "s_length s' = s_length s2" "contents2 s' = (zs @ [y]) @ ys"
    by auto
  show ?case using s1(1) s2(1) s' f t s2(3,4) by (simp del: Push2.simps)
qed

lemma MapR2_loop_thread:
  assumes "wf s" "contents2 s = zs @ rev xs"
  shows "\<exists>s'. MapR2_loop (length xs) f s c = Inr (s', snd (thread f xs c)) \<and> wf s' \<and>
           Capacity s' = Capacity s \<and> s_length s' = s_length s \<and>
           contents2 s' = rev (fst (thread f xs c)) @ zs"
  using assms
proof (induction xs arbitrary: s c zs)
  case Nil
  then show ?case by simp
next
  case (Cons x xs)
  obtain y c1 where f: "f x c = (y, c1)" by (cases "f x c")
  obtain ys c2 where t: "thread f xs c1 = (ys, c2)" by (cases "thread f xs c1")
  from Cons.prems have ne: "\<not> Empty s" by (simp add: Empty_iff_contents2)
  from Pop2_nonempty[OF Cons.prems(1) ne] Cons.prems(2) obtain s1 where
    s1: "Pop2 s = Inr (x, s1)" "wf s1" "Capacity s1 = Capacity s"
      "s_length s1 = s_length s - 1" "contents2 s1 = zs @ rev xs"
    by (auto simp: butlast_append)
  from Cons.prems(1) s1 have "\<not> Full s1" by (auto simp: Full_def wf_def Capacity_def)
  from Unshift2_step_grow[OF s1(2) this, of y] s1 obtain s2 where
    s2: "Unshift2 [y] s1 = Inr s2" "wf s2" "Capacity s2 = Capacity s"
      "s_length s2 = s_length s" "contents2 s2 = (y # zs) @ rev xs"
    by (auto simp: Unshift2_single simp del: Unshift2.simps)
  from Cons.IH[OF s2(2) s2(5), of c1] t obtain s' where
    s': "MapR2_loop (length xs) f s2 c1 = Inr (s', c2)" "wf s'" "Capacity s' = Capacity s2"
      "s_length s' = s_length s2" "contents2 s' = rev ys @ (y # zs)"
    by auto
  show ?case using s1(1) s2(1) s' f t s2(3,4) by (simp del: Unshift2.simps)
qed

lemma thread_observing: "thread (observing g) xs seen = (map g xs, seen @ xs)"
  by (induction xs arbitrary: seen) (simp_all add: observing_def)

section \<open>The claims about \<open>src/unnamed/part_002\<close>\<close>

text \<open>
  C7: on a buffer that a caller can hold, \<open>MapR\<close> and \<open>Map\<close> with the same function
  without state both return without a panic and leave the same live lines in the same
  order, the images of the old lines, and the same count. A closure that computes the
  same function and also records its arguments sees the lines from the oldest to the
  newest under \<open>Map\<close> and from the newest to the oldest under \<open>MapR\<close>, and the lines
  it leaves are the same again.
\<close>

theorem MapR_leaves_what_Map_leaves:
  assumes "reachable2 s"
  shows "\<exists>s1 s2 t1 t2.
           Map2 (pure_fn g) s c = Inr (s1, c) \<and> MapR2 (pure_fn g) s c = Inr (s2, c) \<and>
           contents2 s1 = map g (contents2 s) \<and> contents2 s2 = contents2 s1 \<and>
           Length s1 = Length s \<and> Length s2 = Length s1 \<and>
           Map2 (observing g) s [] = Inr (t1, contents2 s) \<and>
           MapR2 (observing g) s [] = Inr (t2, rev (contents2 s)) \<and>
           contents2 t1 = contents2 s1 \<and> contents2 t2 = contents2 s1"
proof -
  have w: "wf s" using assms by (rule reachable2_wf)
  have n: "nat (s_length s) = length (contents2 s)" "nat (s_length s) = length (rev (contents2 s))"
    by (simp_all add: length_contents2)
  have m: "\<exists>s'. Map2 h s d = Inr (s', snd (thread h (contents2 s) d)) \<and>
            contents2 s' = fst (thread h (contents2 s) d) \<and> Length s' = Length s" for h and d :: 'd
    using Map2_loop_thread[OF w, of "contents2 s" "[]" h d]
    by (auto simp: Map2_def n(1) Length_def)
  have r: "\<exists>s'. MapR2 h s d = Inr (s', snd (thread h (rev (contents2 s)) d)) \<and>
            contents2 s' = rev (fst (thread h (rev (contents2 s)) d)) \<and> Length s' = Length s"
    for h and d :: 'd
    using MapR2_loop_thread[OF w, of "[]" "rev (contents2 s)" h d]
    by (auto simp: MapR2_def n(2) Length_def)
  from m[of "pure_fn g" c] m[of "observing g" "[]"] r[of "pure_fn g" c] r[of "observing g" "[]"]
  show ?thesis
    by (auto simp: thread_pure_fn thread_observing rev_map)
qed

theorem MapR_leaves_what_Map_leaves_witness:
  "reachable2 \<lparr>s_start = 1, s_end = 1, s_lines = [''d'', ''b'', ''c''], s_length = 3\<rparr> \<and>
   (\<exists>s1 s2 t1 t2.
      Map2 (pure_fn (\<lambda>x. x @ ''!''))
        \<lparr>s_start = 1, s_end = 1, s_lines = [''d'', ''b'', ''c''], s_length = 3\<rparr> (0::nat)
        = Inr (s1, 0) \<and>
      MapR2 (pure_fn (\<lambda>x. x @ ''!''))
        \<lparr>s_start = 1, s_end = 1, s_lines = [''d'', ''b'', ''c''], s_length = 3\<rparr> (0::nat)
        = Inr (s2, 0) \<and>
      contents2 s1 = [''b!'', ''c!'', ''d!''] \<and> contents2 s2 = contents2 s1 \<and>
      Length s1 = 3 \<and> Length s2 = Length s1 \<and>
      Map2 (observing (\<lambda>x. x @ ''!''))
        \<lparr>s_start = 1, s_end = 1, s_lines = [''d'', ''b'', ''c''], s_length = 3\<rparr> []
        = Inr (t1, [''b'', ''c'', ''d'']) \<and>
      MapR2 (observing (\<lambda>x. x @ ''!''))
        \<lparr>s_start = 1, s_end = 1, s_lines = [''d'', ''b'', ''c''], s_length = 3\<rparr> []
        = Inr (t2, [''d'', ''c'', ''b'']) \<and>
      contents2 t1 = contents2 s1 \<and> contents2 t2 = contents2 s1)"
proof -
  let ?u = "\<lparr>s_start = 0, s_end = 0, s_lines = [''a'', ''b'', ''c''], s_length = 3\<rparr>"
  let ?s = "\<lparr>s_start = 1, s_end = 1, s_lines = [''d'', ''b'', ''c''], s_length = 3\<rparr>"
  have "Unslice [''a'', ''b'', ''c''] = Inr ?u" by code_simp
  then have "reachable2 ?u" by (rule reachable2.unslice2)
  moreover have "Push2 [''d''] ?u = Inr ?s" by code_simp
  ultimately have r: "reachable2 ?s" by (rule reachable2.push2)
  have c: "contents2 ?s = [''b'', ''c'', ''d'']" by code_simp
  from MapR_leaves_what_Map_leaves[OF r, of "\<lambda>x. x @ ''!''" "0::nat"] r c show ?thesis
    by (simp add: Length_def)
qed

text \<open>
  C6 does not hold of the code for the sequence without elements. \<open>Unslice\<close> sets
  \<open>end\<close> with \<open>mod\<close>, which divides by the length of the slice: \<open>Unslice\<close> of an empty
  slice ends with the panic of an integer division by zero and returns no buffer. The
  slice that \<open>Slice\<close> returns for an empty buffer is empty, so \<open>Unslice(b.Slice())\<close>
  panics for every empty buffer \<open>b\<close>, here a new one of capacity 2.
\<close>

theorem Unslice_of_no_lines_panics:
  "Unslice [] = Inl DivideByZero \<and>
   NewStRingBuffer 2 = Inr \<lparr>s_start = 0, s_end = 0, s_lines = ['''', ''''], s_length = 0\<rparr> \<and>
   Unslice_Slice \<lparr>s_start = 0, s_end = 0, s_lines = ['''', ''''], s_length = 0\<rparr>
     = Inl DivideByZero"
  by code_simp

text \<open>
  For a sequence with at least one element \<open>Unslice\<close> does what C6 says: the buffer is
  full, its capacity is the length of the sequence, its live lines are the sequence,
  \<open>Shift\<close> returns the first element and \<open>Pop\<close> the last; and \<open>Unslice(b.Slice())\<close> of
  a buffer that is not empty is a full buffer with the live lines of \<open>b\<close>.
\<close>

lemma Unslice_nonempty:
  assumes "vs \<noteq> []"
  shows "\<exists>s. Unslice vs = Inr s \<and> reachable2 s \<and> Full s \<and> Capacity s = int (length vs) \<and>
           contents2 s = vs \<and> returned (Shift2 s) = Inr (hd vs) \<and>
           returned (Pop2 s) = Inr (last vs)"
proof -
  from assms obtain s where s: "Unslice vs = Inr s" by (simp add: Unslice_nonempty_eq)
  from Unslice_wf[OF s] have p: "wf s" "Full s" "Capacity s = int (length vs)" "contents2 s = vs"
    by simp_all
  from p assms have ne: "\<not> Empty s" by (simp add: Empty_iff_contents2)
  from Shift2_nonempty[OF p(1) ne] Pop2_nonempty[OF p(1) ne] p(4)
  have "returned (Shift2 s) = Inr (hd vs)" "returned (Pop2 s) = Inr (last vs)"
    by (auto simp: returned_def)
  with s p reachable2.unslice2[OF s] show ?thesis by simp
qed

lemma Unslice_Slice_nonempty:
  assumes "reachable2 b" "\<not> Empty b"
  shows "\<exists>s. Unslice_Slice b = Inr s \<and> Full s \<and> contents2 s = contents2 b"
proof -
  have w: "wf b" using assms(1) by (rule reachable2_wf)
  with assms(2) have "contents2 b \<noteq> []" by (simp add: Empty_iff_contents2)
  from Unslice_nonempty[OF this] Slice_wf[OF w] show ?thesis
    by (auto simp: Unslice_Slice_def)
qed

section \<open>\<open>Map\<close> and \<open>MapR\<close> stay among the buffers a caller can reach\<close>

lemma bind_res_Inr: "bind_res m k = Inr y \<longleftrightarrow> (\<exists>x. m = Inr x \<and> k x = Inr y)"
  by (cases m) auto

lemma Map_loop_reachable:
  "reachable s \<Longrightarrow> Map_loop n f s c = Inr (s', c') \<Longrightarrow> reachable s'"
proof (induction n arbitrary: s c)
  case 0
  then show ?case by simp
next
  case (Suc n)
  from Suc.prems(2) obtain x s1 where
    a: "Shift s = Inr (x, s1)"
      "(case f x c of (y, c1) \<Rightarrow> bind_res (Push [y] s1) (\<lambda>s2. Map_loop n f s2 c1))
         = Inr (s', c')"
    by (auto simp: bind_res_Inr simp del: Push.simps)
  obtain y c1 where fx: "f x c = (y, c1)" by (cases "f x c")
  with a(2) obtain s2 where
    b: "Push [y] s1 = Inr s2" "Map_loop n f s2 c1 = Inr (s', c')"
    by (auto simp: bind_res_Inr simp del: Push.simps)
  note st = a(1) fx b
  from Suc.prems(1) st(1) have "reachable s1" by (rule reachable.shift)
  then have "reachable s2" using st(3) by (rule reachable.push)
  then show ?case using st(4) by (rule Suc.IH)
qed

lemma MapR_loop_reachable:
  "reachable s \<Longrightarrow> MapR_loop n f s c = Inr (s', c') \<Longrightarrow> reachable s'"
proof (induction n arbitrary: s c)
  case 0
  then show ?case by simp
next
  case (Suc n)
  from Suc.prems(2) obtain x s1 where
    a: "Pop s = Inr (x, s1)"
      "(case f x c of (y, c1) \<Rightarrow> bind_res (Unshift [y] s1) (\<lambda>s2. MapR_loop n f s2 c1))
         = Inr (s', c')"
    by (auto simp: bind_res_Inr simp del: Unshift.simps)
  obtain y c1 where fx: "f x c = (y, c1)" by (cases "f x c")
  with a(2) obtain s2 where
    b: "Unshift [y] s1 = Inr s2" "MapR_loop n f s2 c1 = Inr (s', c')"
    by (auto simp: bind_res_Inr simp del: Unshift.simps)
  note st = a(1) fx b
  from Suc.prems(1) st(1) have "reachable s1" by (rule reachable.pop)
  then have "reachable s2" using st(3) by (rule reachable.unshift)
  then show ?case using st(4) by (rule Suc.IH)
qed

lemma Map_reachable:
  assumes "reachable s"
    and "Map f s c = Inr (s', c') \<or> MapR f s c = Inr (s', c') \<or>
         Each g s c = Inr (s', c') \<or> EachR g s c = Inr (s', c')"
  shows "reachable s'"
  using assms(2) unfolding Map_def MapR_def Each_def EachR_def
  by (elim disjE)
    (rule Map_loop_reachable[OF assms(1)] MapR_loop_reachable[OF assms(1)]; assumption)+

lemma Map2_loop_reachable2:
  "reachable2 s \<Longrightarrow> Map2_loop n f s c = Inr (s', c') \<Longrightarrow> reachable2 s'"
proof (induction n arbitrary: s c)
  case 0
  then show ?case by simp
next
  case (Suc n)
  from Suc.prems(2) obtain x s1 where
    a: "Shift2 s = Inr (x, s1)"
      "(case f x c of (y, c1) \<Rightarrow> bind_res (Push2 [y] s1) (\<lambda>s2. Map2_loop n f s2 c1))
         = Inr (s', c')"
    by (auto simp: bind_res_Inr simp del: Push2.simps)
  obtain y c1 where fx: "f x c = (y, c1)" by (cases "f x c")
  with a(2) obtain s2 where
    b: "Push2 [y] s1 = Inr s2" "Map2_loop n f s2 c1 = Inr (s', c')"
    by (auto simp: bind_res_Inr simp del: Push2.simps)
  note st = a(1) fx b
  from Suc.prems(1) st(1) have "reachable2 s1" by (rule reachable2.shift2)
  then have "reachable2 s2" using st(3) by (rule reachable2.push2)
  then show ?case using st(4) by (rule Suc.IH)
qed

lemma MapR2_loop_reachable2:
  "reachable2 s \<Longrightarrow> MapR2_loop n f s c = Inr (s', c') \<Longrightarrow> reachable2 s'"
proof (induction n arbitrary: s c)
  case 0
  then show ?case by simp
next
  case (Suc n)
  from Suc.prems(2) obtain x s1 where
    a: "Pop2 s = Inr (x, s1)"
      "(case f x c of (y, c1) \<Rightarrow> bind_res (Unshift2 [y] s1) (\<lambda>s2. MapR2_loop n f s2 c1))
         = Inr (s', c')"
    by (auto simp: bind_res_Inr simp del: Unshift2.simps)
  obtain y c1 where fx: "f x c = (y, c1)" by (cases "f x c")
  with a(2) obtain s2 where
    b: "Unshift2 [y] s1 = Inr s2" "MapR2_loop n f s2 c1 = Inr (s', c')"
    by (auto simp: bind_res_Inr simp del: Unshift2.simps)
  note st = a(1) fx b
  from Suc.prems(1) st(1) have "reachable2 s1" by (rule reachable2.pop2)
  then have "reachable2 s2" using st(3) by (rule reachable2.unshift2)
  then show ?case using st(4) by (rule Suc.IH)
qed

lemma Map2_reachable2:
  assumes "reachable2 s"
    and "Map2 f s c = Inr (s', c') \<or> MapR2 f s c = Inr (s', c')"
  shows "reachable2 s'"
  using assms(2) unfolding Map2_def MapR2_def
  by (elim disjE)
    (rule Map2_loop_reachable2[OF assms(1)] MapR2_loop_reachable2[OF assms(1)]; assumption)+

section \<open>\<open>Slice\<close> and the arrays of the store\<close>

text \<open>
  On a valid header the methods over the store do to the window of \<open>lines\<close> what the
  methods over lists do to the list, and they write to no other array.
\<close>

lemma length_view: "valid_slice h sl \<Longrightarrow> length (view h sl) = sl_len sl"
  by (auto simp: view_def valid_slice_def)

lemma nth_view:
  "valid_slice h sl \<Longrightarrow> i < sl_len sl \<Longrightarrow> view h sl ! i = h ! sl_arr sl ! (sl_off sl + i)"
  by (auto simp: view_def valid_slice_def)

lemma store_put_update:
  assumes "valid_slice h sl" "i < sl_len sl"
  shows "store_put h sl ((view h sl)[i := v])
       = h[sl_arr sl := (h ! sl_arr sl)[sl_off sl + i := v]]"
proof -
  let ?A = "h ! sl_arr sl"
  from assms have b: "sl_off sl + sl_len sl \<le> length ?A" by (simp add: valid_slice_def)
  have len: "length ((view h sl)[i := v]) = sl_len sl"
    using assms by (simp add: length_view)
  have E: "take (sl_off sl) ?A @ (view h sl)[i := v] @ drop (sl_off sl + sl_len sl) ?A
      = ?A[sl_off sl + i := v]"
  proof (rule nth_equalityI)
    show "length (take (sl_off sl) ?A @ (view h sl)[i := v] @
          drop (sl_off sl + sl_len sl) ?A) = length (?A[sl_off sl + i := v])"
      using b by (simp add: length_view[OF assms(1)])
  next
    fix k
    assume "k < length (take (sl_off sl) ?A @ (view h sl)[i := v] @
          drop (sl_off sl + sl_len sl) ?A)"
    then have k: "k < length ?A" using b by (simp add: length_view[OF assms(1)])
    show "(take (sl_off sl) ?A @ (view h sl)[i := v] @
          drop (sl_off sl + sl_len sl) ?A) ! k = ?A[sl_off sl + i := v] ! k"
      using b k assms(2)
      by (auto simp: view_def nth_append nth_list_update min_def)
  qed
  show ?thesis by (simp only: store_put_def len E)
qed

lemma store_put_view: "valid_slice h sl \<Longrightarrow> store_put h sl (view h sl) = h"
proof -
  assume v: "valid_slice h sl"
  let ?A = "h ! sl_arr sl"
  from v have b: "sl_off sl + sl_len sl \<le> length ?A" by (simp add: valid_slice_def)
  have "take (sl_off sl) ?A @ take (sl_len sl) (drop (sl_off sl) ?A) @
          drop (sl_off sl + sl_len sl) ?A = ?A"
    by (metis append_take_drop_id drop_drop add.commute)
  then have "take (sl_off sl) ?A @ view h sl @ drop (sl_off sl + length (view h sl)) ?A = ?A"
    using v by (simp only: length_view) (simp only: view_def)
  then show ?thesis using v by (simp add: store_put_def valid_slice_def)
qed

lemma view_store_put:
  "valid_slice h sl \<Longrightarrow> length ys = sl_len sl \<Longrightarrow> view (store_put h sl ys) sl = ys"
  by (auto simp: view_def store_put_def valid_slice_def)

lemma valid_store_put:
  "valid_slice h sl \<Longrightarrow> length ys = sl_len sl \<Longrightarrow> valid_slice (store_put h sl ys) sl"
  by (auto simp: store_put_def valid_slice_def)

lemma frame_store_put:
  "length (store_put h sl ys) = length h \<and>
   (\<forall>a. a \<noteq> sl_arr sl \<longrightarrow> store_put h sl ys ! a = h ! a)"
  by (simp add: store_put_def)

lemma mod_h_buffer_of: "valid_slice h (h_lines s) \<Longrightarrow> mod_srb (buffer_of h s) x = mod_h s x"
  by (simp add: mod_srb_def mod_h_def buffer_of_def length_view)

lemma Full_buffer_of: "valid_slice h (h_lines s) \<Longrightarrow> Full (buffer_of h s) = Full_h s"
  by (simp add: Full_def Full_h_def buffer_of_def length_view)

lemma Empty_buffer_of: "Empty (buffer_of h s) = Empty_h s"
  by (simp add: Empty_def Empty_h_def buffer_of_def)

lemma view_Nil: "valid_slice h sl \<Longrightarrow> (view h sl = []) = (sl_len sl = 0)"
  using length_view[of h sl] by auto

lemmas h_defs = buffer_of_def write_back_def mod_srb_def mod_h_def go_rem_def Full_def Full_h_def
  Empty_def Empty_h_def index_set_def h_index_set_def index_get_def h_index_get_def Let_def

lemma Push2_h_step_refines:
  assumes "valid_slice h (h_lines s)"
  shows "Push2_h_step v h s
       = bind_res (Push2_step v (buffer_of h s)) (\<lambda>t. Inr (write_back h s t))"
  using assms
  by (auto simp: Push2_h_step_def Push2_step_def h_defs length_view view_Nil store_put_update nat_less_iff)

lemma Unshift2_h_step_refines:
  assumes "valid_slice h (h_lines s)"
  shows "Unshift2_h_step v h s
       = bind_res (Unshift2_step v (buffer_of h s)) (\<lambda>t. Inr (write_back h s t))"
  using assms
  by (auto simp: Unshift2_h_step_def Unshift2_step_def h_defs length_view view_Nil store_put_update
      nat_less_iff)

lemma Pop2_h_refines:
  assumes "valid_slice h (h_lines s)"
  shows "Pop2_h h s
       = bind_res (Pop2 (buffer_of h s)) (\<lambda>(x, t). case write_back h s t of (h', s') \<Rightarrow> Inr (x, h', s'))"
  using assms
  by (auto simp: Pop2_h_def Pop2_def h_defs length_view view_Nil store_put_update store_put_view nth_view
      nat_less_iff)

lemma Shift2_h_refines:
  assumes "valid_slice h (h_lines s)"
  shows "Shift2_h h s
       = bind_res (Shift2 (buffer_of h s)) (\<lambda>(x, t). case write_back h s t of (h', s') \<Rightarrow> Inr (x, h', s'))"
  using assms
  by (auto simp: Shift2_h_def Shift2_def h_defs length_view view_Nil store_put_update store_put_view nth_view
      nat_less_iff)

lemma write_back_props:
  assumes "valid_slice h (h_lines s)" "length (s_lines t) = sl_len (h_lines s)"
    "write_back h s t = (h', s')"
  shows "buffer_of h' s' = t" "valid_slice h' (h_lines s')" "h_lines s' = h_lines s"
    "same_but h (sl_arr (h_lines s)) h'"
proof -
  from assms(3) have h': "h' = store_put h (h_lines s) (s_lines t)"
    and s': "s' = s\<lparr>h_start := s_start t, h_end := s_end t, h_length := s_length t\<rparr>"
    by (simp_all add: write_back_def)
  show "h_lines s' = h_lines s" by (simp add: s')
  show "valid_slice h' (h_lines s')"
    using assms(1,2) by (simp add: h' s' valid_store_put)
  show "buffer_of h' s' = t"
    using assms(1,2) by (simp add: h' s' buffer_of_def view_store_put)
  show "same_but h (sl_arr (h_lines s)) h'"
    using frame_store_put[of h "h_lines s" "s_lines t"] by (simp add: same_but_def h')
qed

lemma Capacity_buffer_of:
  "valid_slice h (h_lines s) \<Longrightarrow> Capacity (buffer_of h s) = int (sl_len (h_lines s))"
  by (simp add: Capacity_def buffer_of_def length_view)

lemma sound_from_write_back:
  assumes "wf_h h s" "wf t" "Capacity t = Capacity (buffer_of h s)" "write_back h s t = (h', s')"
  shows "wf_h h' s' \<and> h_lines s' = h_lines s \<and> same_but h (sl_arr (h_lines s)) h' \<and>
         buffer_of h' s' = t"
proof -
  from assms(1) have v: "valid_slice h (h_lines s)" by (simp add: wf_h_def)
  from assms(3) v have "length (s_lines t) = sl_len (h_lines s)"
    by (simp add: Capacity_buffer_of) (simp add: Capacity_def)
  from write_back_props[OF v this assms(4)] assms(2) show ?thesis
    by (simp add: wf_h_def)
qed

lemma Push2_h_step_sound:
  assumes "wf_h h s" "Push2_h_step v h s = Inr (h', s')"
  shows "wf_h h' s' \<and> h_lines s' = h_lines s \<and> same_but h (sl_arr (h_lines s)) h' \<and>
         Push2_step v (buffer_of h s) = Inr (buffer_of h' s')"
proof -
  from assms(1) have v: "valid_slice h (h_lines s)" and w: "wf (buffer_of h s)"
    by (simp_all add: wf_h_def)
  from assms(2) obtain t where
    t: "Push2_step v (buffer_of h s) = Inr t" "write_back h s t = (h', s')"
    by (auto simp: Push2_h_step_refines[OF v] bind_res_Inr)
  from Push2_step_wf[OF w t(1)] sound_from_write_back[OF assms(1) _ _ t(2)] t(1)
  show ?thesis by simp
qed

lemma Unshift2_h_step_sound:
  assumes "wf_h h s" "Unshift2_h_step v h s = Inr (h', s')"
  shows "wf_h h' s' \<and> h_lines s' = h_lines s \<and> same_but h (sl_arr (h_lines s)) h' \<and>
         Unshift2_step v (buffer_of h s) = Inr (buffer_of h' s')"
proof -
  from assms(1) have v: "valid_slice h (h_lines s)" and w: "wf (buffer_of h s)"
    by (simp_all add: wf_h_def)
  from assms(2) obtain t where
    t: "Unshift2_step v (buffer_of h s) = Inr t" "write_back h s t = (h', s')"
    by (auto simp: Unshift2_h_step_refines[OF v] bind_res_Inr)
  from Unshift2_step_wf[OF w t(1)] sound_from_write_back[OF assms(1) _ _ t(2)] t(1)
  show ?thesis by simp
qed

lemma Pop2_h_sound:
  assumes "wf_h h s" "Pop2_h h s = Inr (x, h', s')"
  shows "wf_h h' s' \<and> h_lines s' = h_lines s \<and> same_but h (sl_arr (h_lines s)) h' \<and>
         Pop2 (buffer_of h s) = Inr (x, buffer_of h' s')"
proof -
  from assms(1) have v: "valid_slice h (h_lines s)" and w: "wf (buffer_of h s)"
    by (simp_all add: wf_h_def)
  from assms(2) obtain t where
    t: "Pop2 (buffer_of h s) = Inr (x, t)" "write_back h s t = (h', s')"
    by (auto simp: Pop2_h_refines[OF v] bind_res_Inr split: prod.splits)
  from Pop2_wf[OF w t(1)] sound_from_write_back[OF assms(1) _ _ t(2)] t(1)
  show ?thesis by simp
qed

lemma Shift2_h_sound:
  assumes "wf_h h s" "Shift2_h h s = Inr (x, h', s')"
  shows "wf_h h' s' \<and> h_lines s' = h_lines s \<and> same_but h (sl_arr (h_lines s)) h' \<and>
         Shift2 (buffer_of h s) = Inr (x, buffer_of h' s')"
proof -
  from assms(1) have v: "valid_slice h (h_lines s)" and w: "wf (buffer_of h s)"
    by (simp_all add: wf_h_def)
  from assms(2) obtain t where
    t: "Shift2 (buffer_of h s) = Inr (x, t)" "write_back h s t = (h', s')"
    by (auto simp: Shift2_h_refines[OF v] bind_res_Inr split: prod.splits)
  from Shift2_wf[OF w t(1)] sound_from_write_back[OF assms(1) _ _ t(2)] t(1)
  show ?thesis by simp
qed

lemma same_but_refl: "same_but h a h"
  by (simp add: same_but_def)

lemma same_but_trans: "same_but h a h1 \<Longrightarrow> same_but h1 a h2 \<Longrightarrow> same_but h a h2"
  by (simp add: same_but_def)

lemma Push2_h_sound:
  "wf_h h s \<Longrightarrow> Push2_h vs h s = Inr (h', s') \<Longrightarrow>
     wf_h h' s' \<and> h_lines s' = h_lines s \<and> same_but h (sl_arr (h_lines s)) h'"
proof (induction vs arbitrary: h s)
  case Nil
  then show ?case by (simp add: same_but_refl)
next
  case (Cons v vs)
  from Cons.prems(2) obtain h1 s1 where
    s1: "Push2_h_step v h s = Inr (h1, s1)" "Push2_h vs h1 s1 = Inr (h', s')"
    by (auto simp: bind_res_Inr)
  from Push2_h_step_sound[OF Cons.prems(1) s1(1)]
  have a: "wf_h h1 s1" "h_lines s1 = h_lines s" "same_but h (sl_arr (h_lines s)) h1"
    by simp_all
  from Cons.IH[OF a(1) s1(2)] a show ?case
    by (auto intro: same_but_trans)
qed

lemma Unshift2_h_sound:
  "wf_h h s \<Longrightarrow> Unshift2_h vs h s = Inr (h', s') \<Longrightarrow>
     wf_h h' s' \<and> h_lines s' = h_lines s \<and> same_but h (sl_arr (h_lines s)) h'"
proof (induction vs arbitrary: h s)
  case Nil
  then show ?case by (simp add: same_but_refl)
next
  case (Cons v vs)
  from Cons.prems(2) obtain h1 s1 where
    s1: "Unshift2_h_step v h s = Inr (h1, s1)" "Unshift2_h vs h1 s1 = Inr (h', s')"
    by (auto simp: bind_res_Inr)
  from Unshift2_h_step_sound[OF Cons.prems(1) s1(1)]
  have a: "wf_h h1 s1" "h_lines s1 = h_lines s" "same_but h (sl_arr (h_lines s)) h1"
    by simp_all
  from Cons.IH[OF a(1) s1(2)] a show ?case
    by (auto intro: same_but_trans)
qed

lemma view_append_old: "sl_arr sl < length h \<Longrightarrow> view (h @ [xs]) sl = view h sl"
  by (simp add: view_def nth_append)

lemma h_copy_new:
  assumes "sl_arr dst = length h" "sl_arr src < length h"
  shows "h_copy (h @ [xs]) dst src
       = h @ [take (sl_off dst) xs @ take (min (sl_len dst) (sl_len src)) (view h src) @
              drop (sl_off dst + length (take (min (sl_len dst) (sl_len src)) (view h src))) xs]"
  using assms by (simp add: h_copy_def store_put_def view_append_old del: length_take)

lemma h_slice_view:
  assumes "valid_slice h sl" "0 \<le> lo" "lo \<le> hi" "hi \<le> int (sl_len sl)"
  shows "\<exists>sl'. h_slice sl lo hi = Inr sl' \<and> sl_arr sl' = sl_arr sl \<and> sl_len sl' = nat (hi - lo) \<and>
           view h sl' = take (nat (hi - lo)) (drop (nat lo) (view h sl))"
proof -
  from assms have c: "hi \<le> int (sl_cap sl)" by (simp add: valid_slice_def)
  have n: "nat (hi - lo) \<le> sl_len sl - nat lo" using assms by linarith
  have "take (nat (hi - lo)) (drop (sl_off sl + nat lo) (h ! sl_arr sl))
      = take (nat (hi - lo)) (drop (nat lo) (take (sl_len sl) (drop (sl_off sl) (h ! sl_arr sl))))"
    using n by (simp add: drop_take min_def add.commute)
  with assms c show ?thesis by (simp add: h_slice_def view_def)
qed

lemma Slice_h_wf:
  assumes "wf_h h s"
  shows "Slice_h h s
       = Inr (\<lparr>sl_arr = length h, sl_off = 0, sl_len = nat (h_length s),
               sl_cap = nat (h_length s)\<rparr>,
              h @ [live_h h s], s)"
proof (cases "Empty_h s")
  case True
  then show ?thesis
    by (simp add: Slice_h_def h_make_def Length_h_def Empty_h_def live_h_def contents2_def
        buffer_of_def ring_list_def)
next
  case False
  let ?L = "h_lines s"
  let ?ls = "view h ?L"
  let ?n = "nat (h_length s)"
  let ?st = "nat (h_start s)"
  let ?e = "nat (h_end s)"
  let ?R = "\<lparr>sl_arr = length h, sl_off = 0, sl_len = ?n, sl_cap = ?n\<rparr>"
  let ?B = "buffer_of h s"
  from assms have v: "valid_slice h ?L" and w: "wf ?B" by (simp_all add: wf_h_def)
  have ne: "\<not> Empty ?B" using False by (simp add: Empty_buffer_of)
  have f: "s_start ?B = h_start s" "s_end ?B = h_end s" "s_length ?B = h_length s"
    "s_lines ?B = ?ls"
    by (simp_all add: buffer_of_def)
  have ll: "length ?ls = sl_len ?L" using v by (rule length_view)
  from wf_not_Empty[OF w ne] have c: "0 < Capacity ?B" "0 < h_length s" by (simp_all add: f)
  from wf_pos[OF w c(1)] have b: "h_length s \<le> int (sl_len ?L)" "0 \<le> h_start s"
    "h_start s < int (sl_len ?L)" "0 \<le> h_end s" "h_end s < int (sl_len ?L)"
    by (simp_all add: Capacity_def f ll)
  have arr: "sl_arr ?L < length h" using v by (simp add: valid_slice_def)
  have mk: "h_make h (Length_h s) = Inr (?R, h @ [replicate ?n ''''])"
    using c by (simp add: h_make_def Length_h_def)
  show ?thesis
  proof (cases "h_start s < h_end s")
    case True
    then have lt: "s_start ?B < s_end ?B" by (simp add: f)
    from wf_start_lt_end[OF w lt] have e: "h_end s = h_start s + h_length s" by (simp add: f)
    from h_slice_view[OF v b(2), of "h_end s + 1"] b e c obtain src where
      src: "h_slice ?L (h_start s) (h_end s + 1) = Inr src" "sl_arr src = sl_arr ?L"
        "sl_len src = Suc ?n" "view h src = take (Suc ?n) (drop ?st ?ls)"
      by (auto simp: nat_add_distrib)
    have len: "?st + ?n \<le> length ?ls" using b c e ll by linarith
    have live: "live_h h s = take ?n (drop ?st ?ls)"
      unfolding live_h_def contents2_def f using b len by (intro ring_list_nowrap) simp_all
    have "h_copy (h @ [replicate ?n '''']) ?R src = h @ [take ?n (drop ?st ?ls)]"
      using len arr by (simp add: h_copy_new src min_def; arith)
    then show ?thesis
      using False True by (simp add: Slice_h_def mk src(1) live Let_def)
  next
    case ge: False
    then have nlt: "\<not> s_start ?B < s_end ?B" by (simp add: f)
    from wf_start_ge_end[OF w nlt ne]
    have e: "h_end s = h_start s + h_length s - int (sl_len ?L)"
      by (simp add: f Capacity_def ll)
    define a where "a = sl_len ?L - ?st"
    have en: "?e = ?st + ?n - length ?ls" using b c e ll by linarith
    have an: "a \<le> ?n" "?n - a = ?e" "a + ?e = ?n" unfolding a_def using b c e by linarith+
    from h_slice_view[OF v b(2), of "int (sl_len ?L)"] b obtain part1 where
      p1: "h_slice ?L (h_start s) (int (sl_len ?L)) = Inr part1" "sl_arr part1 = sl_arr ?L"
        "sl_len part1 = a" "view h part1 = drop ?st ?ls"
      by (auto simp: a_def ll nat_diff_distrib)
    from h_slice_view[OF v, of 0 "h_end s"] b obtain part2 where
      p2: "h_slice ?L 0 (h_end s) = Inr part2" "sl_arr part2 = sl_arr ?L"
        "sl_len part2 = ?e" "view h part2 = take ?e ?ls"
      by auto
    have l1: "length (drop ?st ?ls) = a" by (simp add: a_def ll)
    have h2: "h_copy (h @ [replicate ?n '''']) ?R part1
        = h @ [drop ?st ?ls @ replicate ?e '''']"
      using an arr l1 by (simp add: h_copy_new p1 min_def del: length_drop)
    have rest: "h_slice ?R (int a) (h_length s)
        = Inr \<lparr>sl_arr = length h, sl_off = a, sl_len = ?e, sl_cap = ?e\<rparr>"
      using an c by (simp add: h_slice_def; linarith)
    have l2: "length (take ?e ?ls) = ?e" using b ll by simp
    have la: "length ?ls \<le> a + ?e + ?st" by (simp add: a_def ll)
    have "h_copy (h @ [drop ?st ?ls @ replicate ?e ''''])
            \<lparr>sl_arr = length h, sl_off = a, sl_len = ?e, sl_cap = ?e\<rparr> part2
        = h @ [drop ?st ?ls @ take ?e ?ls]"
      using arr l1 l2 la by (simp add: h_copy_new p2 del: length_drop length_take)
    moreover have "live_h h s = drop ?st ?ls @ take (?st + ?n - length ?ls) ?ls"
      unfolding live_h_def contents2_def f
    proof (rule ring_list_wrap)
      show "0 \<le> h_start s" using b by simp
      show "?st \<le> length ?ls" using b ll by linarith
      show "length ?ls \<le> ?st + ?n" using b c e ll by linarith
      show "?n \<le> length ?ls" using b ll by linarith
    qed
    ultimately have fin: "h_copy (h @ [drop ?st ?ls @ replicate ?e ''''])
            \<lparr>sl_arr = length h, sl_off = a, sl_len = ?e, sl_cap = ?e\<rparr> part2
        = h @ [live_h h s]"
      by (simp only: en)
    show ?thesis
      using False ge c(2)
      by (simp add: Slice_h_def mk p1 p2 h2 rest fin Let_def)
  qed
qed

lemma Unslice_h_shares_array: "Unslice_h ls = Inr s \<Longrightarrow> h_lines s = ls"
  by (auto simp: Unslice_h_def Let_def bind_res_Inr)

lemma wf_h_append: "wf_h h s \<Longrightarrow> wf_h (h @ [xs]) s \<and> buffer_of (h @ [xs]) s = buffer_of h s"
  by (auto simp: wf_h_def valid_slice_def buffer_of_def view_append_old nth_append)

lemma NewStRingBuffer_h_wf:
  assumes "NewStRingBuffer_h h0 sz = Inr (h, s)"
  shows "wf_h h s"
proof -
  from assms have z: "0 \<le> sz"
    and h: "h = h0 @ [replicate (nat sz) '''']"
    and s: "s = \<lparr>h_start = 0, h_end = 0,
                h_lines = \<lparr>sl_arr = length h0, sl_off = 0, sl_len = nat sz, sl_cap = nat sz\<rparr>,
                h_length = 0\<rparr>"
    by (auto simp: NewStRingBuffer_h_def h_make_def split: if_splits)
  have v: "valid_slice h (h_lines s)" by (simp add: h s valid_slice_def)
  have "Capacity (buffer_of h s) = sz" using z by (simp add: Capacity_buffer_of[OF v]) (simp add: s)
  then show ?thesis using v z by (simp add: wf_h_def wf_def) (simp add: buffer_of_def s)
qed

lemma Unslice_h_wf:
  assumes "valid_slice h ls" "Unslice_h ls = Inr s"
  shows "wf_h h s"
proof -
  from assms(2) have l: "h_lines s = ls"
    by (auto simp: Unslice_h_def Let_def bind_res_Inr)
  from assms have "Unslice (view h ls) = Inr (buffer_of h s)"
    by (auto simp: Unslice_h_def Unslice_def Let_def bind_res_Inr mod_h_def mod_srb_def
        buffer_of_def length_view)
  from Unslice_wf[OF this] assms(1) l show ?thesis by (simp add: wf_h_def)
qed

lemma later_h_inv:
  assumes "later_h p q" "wf_h (fst p) (snd p)"
  shows "wf_h (fst q) (snd q) \<and> h_lines (snd q) = h_lines (snd p) \<and>
         length (fst p) \<le> length (fst q) \<and>
         (\<forall>a < length (fst p). a \<noteq> sl_arr (h_lines (snd p)) \<longrightarrow> fst q ! a = fst p ! a)"
  using assms
proof (induction rule: later_h.induct)
  case (now_h p)
  then show ?case by simp
next
  case (push_h p h s vs h' s')
  from push_h.IH[OF push_h.prems] Push2_h_sound[OF _ push_h.hyps(2)] show ?case
    by (auto simp: same_but_def)
next
  case (pop_h p h s x h' s')
  from pop_h.IH[OF pop_h.prems] Pop2_h_sound[OF _ pop_h.hyps(2)] show ?case
    by (auto simp: same_but_def)
next
  case (unshift_h p h s vs h' s')
  from unshift_h.IH[OF unshift_h.prems] Unshift2_h_sound[OF _ unshift_h.hyps(2)] show ?case
    by (auto simp: same_but_def)
next
  case (shift_h p h s x h' s')
  from shift_h.IH[OF shift_h.prems] Shift2_h_sound[OF _ shift_h.hyps(2)] show ?case
    by (auto simp: same_but_def)
next
  case (slice_h p h s r h' s')
  from slice_h.IH[OF slice_h.prems] have w: "wf_h h s" by simp
  from slice_h.hyps(2) have e: "h' = h @ [live_h h s]" "s' = s"
    by (auto simp: Slice_h_wf[OF w])
  from slice_h.IH[OF slice_h.prems] wf_h_append[OF w, of "live_h h s"] show ?case
    by (auto simp: e nth_append)
qed

lemma reachable_h_wf: "reachable_h p \<Longrightarrow> wf_h (fst p) (snd p)"
proof (induction rule: reachable_h.induct)
  case (new_h h0 sz h s)
  then show ?case by (simp add: NewStRingBuffer_h_wf)
next
  case (unslice_h h ls s)
  then show ?case by (simp add: Unslice_h_wf)
next
  case (calls_h p q)
  then show ?case using later_h_inv by blast
next
  case (other_h h s h')
  then have v: "valid_slice h (h_lines s)" and w: "wf (buffer_of h s)"
    by (simp_all add: wf_h_def)
  from v other_h.hyps(2,3) have v': "valid_slice h' (h_lines s)"
    by (auto simp: valid_slice_def)
  have "wf (buffer_of h' s) = wf (buffer_of h s)"
    using v v' by (simp add: wf_def Capacity_buffer_of) (simp add: buffer_of_def)
  with v' w show ?case by (simp add: wf_h_def)
qed

lemma Shifts2_h_complete:
  "wf_h h s \<Longrightarrow> Shifts2 n (buffer_of h s) = Inr (xs, t) \<Longrightarrow>
     \<exists>h' s'. Shifts2_h n h s = Inr (xs, h', s') \<and> buffer_of h' s' = t"
proof (induction n arbitrary: h s xs)
  case 0
  then show ?case by simp
next
  case (Suc n)
  from Suc.prems(2) obtain x t1 xs' where
    a: "Shift2 (buffer_of h s) = Inr (x, t1)" "Shifts2 n t1 = Inr (xs', t)" "xs = x # xs'"
    by (auto simp: bind_res_Inr)
  from Suc.prems(1) have v: "valid_slice h (h_lines s)" by (simp add: wf_h_def)
  obtain h1 s1 where wb: "write_back h s t1 = (h1, s1)" by (cases "write_back h s t1")
  then have sh: "Shift2_h h s = Inr (x, h1, s1)"
    by (simp add: Shift2_h_refines[OF v] a(1))
  from Shift2_h_sound[OF Suc.prems(1) sh] a(1)
  have w1: "wf_h h1 s1" "buffer_of h1 s1 = t1" by simp_all
  from Suc.IH[OF w1(1), of xs'] a(2) w1(2) obtain h' s' where
    "Shifts2_h n h1 s1 = Inr (xs', h', s')" "buffer_of h' s' = t"
    by auto
  with sh a(3) show ?case by simp
qed

text \<open>
  C8: for every store and buffer that a caller can reach, \<open>Slice\<close> returns without a
  panic a slice whose elements are the live lines from the oldest to the newest, the
  values that draining the buffer with \<open>Shift\<close> returns in that order. The slice is
  newly allocated: its array has an address that was not allocated before the call, so
  it is not the array of \<open>lines\<close>, and no later call of a method on the buffer changes
  what the returned slice holds. The call leaves \<open>start\<close>, \<open>end\<close>, the count and the
  header \<open>lines\<close> as they were, and changes no element of an array that existed before
  it, so the live lines are unchanged.
\<close>

theorem Slice_allocates_the_live_lines:
  assumes "reachable_h (h, s)"
  shows "\<exists>r h'.
           Slice_h h s = Inr (r, h', s) \<and>
           sl_arr r = length h \<and> sl_arr r \<noteq> sl_arr (h_lines s) \<and>
           length h' = Suc (length h) \<and> (\<forall>a < length h. h' ! a = h ! a) \<and>
           view h' r = live_h h s \<and> live_h h' s = live_h h s \<and>
           (\<exists>h2 s2. Shifts2_h (nat (Length_h s)) h' s = Inr (live_h h s, h2, s2) \<and> Empty_h s2) \<and>
           (\<forall>h2 s2. later_h (h', s) (h2, s2) \<longrightarrow> view h2 r = live_h h s)"
proof -
  let ?n = "nat (h_length s)"
  let ?r = "\<lparr>sl_arr = length h, sl_off = 0, sl_len = ?n, sl_cap = ?n\<rparr>"
  let ?h' = "h @ [live_h h s]"
  from reachable_h_wf[OF assms] have w: "wf_h h s" by simp
  then have arr: "sl_arr (h_lines s) < length h" by (simp add: wf_h_def valid_slice_def)
  have len: "length (live_h h s) = ?n"
    by (simp add: live_h_def length_contents2 buffer_of_def)
  from wf_h_append[OF w, of "live_h h s"]
  have w': "wf_h ?h' s" and b': "buffer_of ?h' s = buffer_of h s" by simp_all
  have 1: "Slice_h h s = Inr (?r, ?h', s)" using w by (rule Slice_h_wf)
  have 2: "view ?h' ?r = live_h h s" using len by (simp add: view_def)
  have 3: "live_h ?h' s = live_h h s"
  proof -
    have "live_h ?h' s = contents2 (buffer_of ?h' s)" by (rule live_h_def)
    also have "\<dots> = contents2 (buffer_of h s)" by (simp only: b')
    also have "\<dots> = live_h h s" by (simp only: live_h_def)
    finally show ?thesis .
  qed
  have 4: "\<exists>h2 s2. Shifts2_h (nat (Length_h s)) ?h' s = Inr (live_h h s, h2, s2) \<and> Empty_h s2"
  proof -
    from w have wb: "wf (buffer_of h s)" by (simp add: wf_h_def)
    have nn: "?n = nat (s_length (buffer_of h s))" by (simp add: buffer_of_def)
    from Shifts2_all[OF wb nn] obtain t where
      t: "Shifts2 ?n (buffer_of h s) = Inr (contents2 (buffer_of h s), t)" "Empty t"
      by blast
    have "Shifts2 ?n (buffer_of ?h' s) = Inr (live_h h s, t)"
      using t(1) b' by (simp add: live_h_def)
    from Shifts2_h_complete[OF w' this] obtain h2 s2 where
      d: "Shifts2_h ?n ?h' s = Inr (live_h h s, h2, s2)" "buffer_of h2 s2 = t"
      by blast
    from d(2) t(2) have "Empty_h s2" using Empty_buffer_of[of h2 s2] by simp
    with d(1) show ?thesis unfolding Length_h_def by blast
  qed
  have 5: "view h2 ?r = live_h h s" if "later_h (?h', s) (h2, s2)" for h2 s2
  proof -
    from later_h_inv[OF that] w' arr have "h2 ! length h = ?h' ! length h" by simp
    then show ?thesis using len by (simp add: view_def)
  qed
  from 1 2 3 4 5 arr show ?thesis
    by (intro exI[of _ ?r] exI[of _ ?h']) (simp add: nth_append)
qed

theorem Slice_allocates_the_live_lines_witness:
  "reachable_h ([[''d'', ''b'', ''c'']],
     \<lparr>h_start = 1, h_end = 1,
      h_lines = \<lparr>sl_arr = 0, sl_off = 0, sl_len = 3, sl_cap = 3\<rparr>, h_length = 3\<rparr>) \<and>
   (\<exists>r h'.
      Slice_h [[''d'', ''b'', ''c'']]
        \<lparr>h_start = 1, h_end = 1,
         h_lines = \<lparr>sl_arr = 0, sl_off = 0, sl_len = 3, sl_cap = 3\<rparr>, h_length = 3\<rparr>
        = Inr (r, h',
            \<lparr>h_start = 1, h_end = 1,
             h_lines = \<lparr>sl_arr = 0, sl_off = 0, sl_len = 3, sl_cap = 3\<rparr>, h_length = 3\<rparr>) \<and>
      sl_arr r = 1 \<and> h' = [[''d'', ''b'', ''c''], [''b'', ''c'', ''d'']] \<and>
      view h' r = [''b'', ''c'', ''d''] \<and>
      (\<exists>h2 s2.
         Push2_h [''e''] h'
           \<lparr>h_start = 1, h_end = 1,
            h_lines = \<lparr>sl_arr = 0, sl_off = 0, sl_len = 3, sl_cap = 3\<rparr>, h_length = 3\<rparr>
           = Inr (h2, s2) \<and>
         h2 = [[''d'', ''e'', ''c''], [''b'', ''c'', ''d'']] \<and>
         live_h h2 s2 = [''c'', ''d'', ''e''] \<and> view h2 r = [''b'', ''c'', ''d'']))"
proof -
  let ?L = "\<lparr>sl_arr = 0, sl_off = 0, sl_len = 3, sl_cap = 3\<rparr>"
  let ?z = "\<lparr>h_start = 0, h_end = 0, h_lines = ?L, h_length = 0\<rparr>"
  let ?s = "\<lparr>h_start = 1, h_end = 1, h_lines = ?L, h_length = 3\<rparr>"
  let ?t = "\<lparr>h_start = 2, h_end = 2, h_lines = ?L, h_length = 3\<rparr>"
  let ?h = "[[''d'', ''b'', ''c'']]"
  let ?h' = "[[''d'', ''b'', ''c''], [''b'', ''c'', ''d'']]"
  let ?g = "[[''d'', ''e'', ''c''], [''b'', ''c'', ''d'']]"
  let ?R = "\<lparr>sl_arr = 1, sl_off = 0, sl_len = 3, sl_cap = 3\<rparr>"
  have "NewStRingBuffer_h [] 3 = Inr ([['''', '''', '''']], ?z)" by code_simp
  then have r0: "reachable_h ([['''', '''', '''']], ?z)" by (rule reachable_h.new_h)
  have "Push2_h [''a'', ''b'', ''c'', ''d''] [['''', '''', '''']] ?z = Inr (?h, ?s)"
    by code_simp
  with later_h.now_h have "later_h ([['''', '''', '''']], ?z) (?h, ?s)"
    by (rule later_h.push_h)
  with r0 have r: "reachable_h (?h, ?s)" by (rule reachable_h.calls_h)
  have sl: "Slice_h ?h ?s = Inr (?R, ?h', ?s)" by code_simp
  have lv: "live_h ?h ?s = [''b'', ''c'', ''d'']" by code_simp
  have pu: "Push2_h [''e''] ?h' ?s = Inr (?g, ?t)" by code_simp
  have lv2: "live_h ?g ?t = [''c'', ''d'', ''e'']" by code_simp
  from later_h.now_h pu have la: "later_h (?h', ?s) (?g, ?t)" by (rule later_h.push_h)
  from Slice_allocates_the_live_lines[OF r] obtain r' h' where
    t: "Slice_h ?h ?s = Inr (r', h', ?s)" "view h' r' = live_h ?h ?s"
      "\<forall>h2 s2. later_h (h', ?s) (h2, s2) \<longrightarrow> view h2 r' = live_h ?h ?s"
    by blast
  from t(1) sl have e: "r' = ?R" "h' = ?h'" by simp_all
  from t(3) la have "view ?g ?R = live_h ?h ?s" unfolding e by blast
  then have v2: "view ?g ?R = [''b'', ''c'', ''d'']" by (simp only: lv)
  from t(2) have v1: "view ?h' ?R = [''b'', ''c'', ''d'']" by (simp only: e lv)
  have a1: "sl_arr ?R = 1" by simp
  have inner: "\<exists>h2 s2. Push2_h [''e''] ?h' ?s = Inr (h2, s2) \<and> h2 = ?g \<and>
      live_h h2 s2 = [''c'', ''d'', ''e''] \<and> view h2 ?R = [''b'', ''c'', ''d'']"
    using pu lv2 v2 by blast
  have "\<exists>r h'. Slice_h ?h ?s = Inr (r, h', ?s) \<and> sl_arr r = 1 \<and> h' = ?h' \<and>
      view h' r = [''b'', ''c'', ''d''] \<and>
      (\<exists>h2 s2. Push2_h [''e''] h' ?s = Inr (h2, s2) \<and> h2 = ?g \<and>
         live_h h2 s2 = [''c'', ''d'', ''e''] \<and> view h2 r = [''b'', ''c'', ''d''])"
    using sl a1 v1 inner by blast
  with r show ?thesis by blast
qed

section \<open>The scenarios of the repository's tests\<close>

text \<open>
  \<open>TestInfo\<close>: five lines pushed onto a new buffer of capacity 5 fill it; \<open>String\<close>
  then prints \<open>start: 0, end: 0, lines: [5 1 2 3 4], length: 5\<close>.
\<close>

lemma TestInfo:
  "bind_res (NewStRingBuffer 5) (Push [''1'', ''2'', ''3'', ''4'', ''5''])
     = Inr \<lparr>s_start = 0, s_end = 0, s_lines = [''5'', ''1'', ''2'', ''3'', ''4''],
           s_length = 5\<rparr>"
  by code_simp

text \<open>
  \<open>TestAddTake\<close>, on one buffer of capacity 3: four lines pushed and popped give
  \<open>"432"\<close>, then \<open>Unshift("4", "3", "2", "1")\<close> drained by \<open>Shift\<close> gives \<open>"123"\<close>, then
  four lines pushed and drained by \<open>Shift\<close> give \<open>"234"\<close>, then the same \<open>Unshift\<close>
  drained by \<open>Pop\<close> gives \<open>"321"\<close>. After three removals the buffer is empty each time.
\<close>

lemma TestAddTake:
  "bind_res (NewStRingBuffer 3) (\<lambda>s0.
     bind_res (Push [''1'', ''2'', ''3'', ''4''] s0) (\<lambda>s1.
     bind_res (Pops 3 s1) (\<lambda>(r1, s2).
     bind_res (Unshift [''4'', ''3'', ''2'', ''1''] s2) (\<lambda>s3.
     bind_res (Shifts 3 s3) (\<lambda>(r2, s4).
     bind_res (Push [''1'', ''2'', ''3'', ''4''] s4) (\<lambda>s5.
     bind_res (Shifts 3 s5) (\<lambda>(r3, s6).
     bind_res (Unshift [''4'', ''3'', ''2'', ''1''] s6) (\<lambda>s7.
     bind_res (Pops 3 s7) (\<lambda>(r4, s8).
       Inr (concat r1, Empty s2, concat r2, Empty s4, concat r3, Empty s6,
            concat r4, Empty s8))))))))))
   = Inr (''432'', True, ''123'', True, ''234'', True, ''321'', True)"
  by code_simp

text \<open>
  \<open>TestMapEach\<close>: \<open>f\<close> counts its calls and appends the count to its argument; \<open>g\<close>
  appends its argument to \<open>sum\<close>. The counts in the test stay below 10, where
  \<open>strconv.Itoa\<close> gives the one digit.
\<close>

lemma TestMapEach:
  "bind_res (NewStRingBuffer 3) (\<lambda>s0.
     bind_res (Push [''.'', ''.'', ''.''] s0) (\<lambda>s1.
     bind_res (Map (\<lambda>x c. (x @ [char_of (48 + (c + 1))], c + 1)) s1 (0::nat)) (\<lambda>(s2, c2).
     bind_res (MapR (\<lambda>x c. (x @ [char_of (48 + (c + 1))], c + 1)) s2 c2) (\<lambda>(s3, c3).
     bind_res (Each (\<lambda>x sum. sum @ x) s3 []) (\<lambda>(s4, sum4).
     bind_res (EachR (\<lambda>x sum. sum @ x) s4 sum4) (\<lambda>(s5, sum5). Inr sum5))))))
   = Inr ''.16.25.34.34.25.16''"
  by code_simp

end
